theory Spec2Isabelle
  imports Main "HOL-Library.Multiset"
begin

section \<open>Strings\<close>

text \<open>
  A JavaScript string is a sequence of UTF-16 code units. The texts that the search and
  the relocation scan (page text, query, highlight, the text of a span) are lists of
  code units, each a number from 0 to 65535, so that \<open>length\<close> counts what \<open>str.length\<close>
  counts. Identifiers, names, titles and labels are only stored, compared and
  concatenated; they are \<^typ>\<open>string\<close>s, each \<^typ>\<open>char\<close> a code unit below 256.
  The functions on strings that do not look at the code units are polymorphic.
\<close>

type_synonym jsstring = "int list"

definition units :: "string \<Rightarrow> jsstring" where
  \<comment> \<open>the code units of a literal\<close>
  "units str = map of_char str"

definition isSpace :: "int \<Rightarrow> bool" where
  \<comment> \<open>the code units that the regular expression \<open>\s\<close> and \<open>trim\<close> treat as whitespace:
      TAB, LF, VT, FF, CR, SPACE, NBSP, U+1680, U+2000 to U+200A, U+2028, U+2029,
      U+202F, U+205F, U+3000 and U+FEFF\<close>
  "isSpace c =
     (c \<in> {9, 10, 11, 12, 13, 32, 160, 5760, 8232, 8233, 8239, 8287, 12288, 65279}
      \<or> (8192 \<le> c \<and> c \<le> 8202))"

definition isSpaceChar :: "char \<Rightarrow> bool" where
  "isSpaceChar c = isSpace (of_char c)"

definition trimWith :: "('a \<Rightarrow> bool) \<Rightarrow> 'a list \<Rightarrow> 'a list" where
  \<comment> \<open>\<open>str.trim()\<close>, for the whitespace of the string's alphabet\<close>
  "trimWith ws str = rev (dropWhile ws (rev (dropWhile ws str)))"

definition trim :: "jsstring \<Rightarrow> jsstring" where
  "trim str = trimWith isSpace str"

text \<open>\<open>str.replace(/\s+/g, ' ')\<close>: every maximal run of whitespace becomes one space.\<close>

function replaceSpaces :: "jsstring \<Rightarrow> jsstring" where
  "replaceSpaces [] = []"
| "replaceSpaces (c # cs) =
     (if isSpace c then 32 # replaceSpaces (dropWhile isSpace cs)
      else c # replaceSpaces cs)"
  by pat_completeness auto
termination
  by (relation "measure length") (auto simp: length_dropWhile_le less_Suc_eq_le)

text \<open>
  \<open>toLowerCase\<close> is the host's: it follows the case mappings of Unicode, which can
  change the length of a string and depend on the neighbours of a character. The
  functions that call it take it as their first argument, and nothing is assumed of it.
  For the examples, \<open>sampleToLowerCase\<close> has the host's mapping of the Basic Latin and
  Latin-1 capitals and of U+0130 (capital I with dot above, which becomes the two code
  units U+0069 U+0307), and leaves every other code unit as it is: it is the host's
  function on the texts of the examples, which have no other cased character.
\<close>

definition lowerUnit :: "int \<Rightarrow> jsstring" where
  "lowerUnit c =
     (if (65 \<le> c \<and> c \<le> 90) \<or> (192 \<le> c \<and> c \<le> 222 \<and> c \<noteq> 215) then [c + 32]
      else if c = 304 then [105, 775]
      else [c])"

definition sampleToLowerCase :: "jsstring \<Rightarrow> jsstring" where
  "sampleToLowerCase str = concat (map lowerUnit str)"

fun startsWith :: "'a list \<Rightarrow> 'a list \<Rightarrow> bool" where
  \<comment> \<open>\<open>startsWith str pat\<close>: \<open>pat\<close> occurs in \<open>str\<close> at position 0\<close>
  "startsWith str [] = True"
| "startsWith [] (p # ps) = False"
| "startsWith (c # cs) (p # ps) = (c = p \<and> startsWith cs ps)"

fun str_includes :: "'a list \<Rightarrow> 'a list \<Rightarrow> bool" where
  \<comment> \<open>\<open>str.includes(pat)\<close>\<close>
  "str_includes [] pat = (pat = [])"
| "str_includes (c # cs) pat = (startsWith (c # cs) pat \<or> str_includes cs pat)"

fun indexOfFrom :: "'a list \<Rightarrow> 'a list \<Rightarrow> int \<Rightarrow> int" where
  \<comment> \<open>the scan of \<open>indexOf\<close>: \<open>k\<close> is the position of the head of the remaining text\<close>
  "indexOfFrom [] pat k = (if pat = [] then k else - 1)"
| "indexOfFrom (c # cs) pat k =
     (if startsWith (c # cs) pat then k else indexOfFrom cs pat (k + 1))"

definition indexOf :: "'a list \<Rightarrow> 'a list \<Rightarrow> int" where
  \<comment> \<open>\<open>str.indexOf(pat)\<close>: the first position of \<open>pat\<close>, or -1\<close>
  "indexOf str pat = indexOfFrom str pat 0"

definition substring :: "'a list \<Rightarrow> int \<Rightarrow> int \<Rightarrow> 'a list" where
  \<comment> \<open>\<open>str.substring(start, end)\<close>: both indices are clamped to \<open>[0, length]\<close> and
      swapped when the first is the larger\<close>
  "substring str start end' =
     (let len = int (length str);
          a = min (max start 0) len;
          b = min (max end' 0) len;
          lo = min a b;
          hi = max a b
      in take (nat (hi - lo)) (drop (nat lo) str))"

fun join :: "'a list \<Rightarrow> 'a list list \<Rightarrow> 'a list" where
  \<comment> \<open>\<open>items.join(sep)\<close>\<close>
  "join sep [] = []"
| "join sep [x] = x"
| "join sep (x # y # ys) = x @ sep @ join sep (y # ys)"

section \<open>Highlight relocation\<close>

datatype ViewState = LIBRARY | READER | NOTES | CATEGORIES

text \<open>
  A span of the rendered text layer. \<open>textContent\<close> of an element is always a
  string, so the source's \<open>span.textContent || ''\<close> is the text itself.
\<close>

record Span =
  textContent :: jsstring
  classList :: "string list"

definition classList_add :: "string \<Rightarrow> Span \<Rightarrow> Span" where
  \<comment> \<open>\<open>span.classList.add(token)\<close>: a token set, so adding twice changes nothing\<close>
  "classList_add token span =
     (if token \<in> set (classList span) then span
      else span\<lparr>classList := classList span @ [token]\<rparr>)"

definition normalize_str :: "(jsstring \<Rightarrow> jsstring) \<Rightarrow> jsstring \<Rightarrow> jsstring" where
  \<comment> \<open>\<open>normalize\<close> of the highlight effect:
      \<open>str.replace(/\s+/g, ' ').trim().toLowerCase()\<close>\<close>
  "normalize_str toLowerCase str = toLowerCase (trim (replaceSpaces str))"

definition marksToken :: "jsstring \<Rightarrow> jsstring \<Rightarrow> bool" where
  \<comment> \<open>the condition under which the effect marks a span, on the normalised texts\<close>
  "marksToken target text =
     ((length text > 3 \<and> str_includes target text)
      \<or> (length target > 3 \<and> str_includes text target))"

fun markSpans ::
  "(jsstring \<Rightarrow> jsstring) \<Rightarrow> jsstring \<Rightarrow> Span list \<Rightarrow> bool \<Rightarrow> Span list \<times> bool" where
  \<comment> \<open>the \<open>forEach\<close> over the spans, threading the flag \<open>found\<close>\<close>
  "markSpans toLowerCase target [] found = ([], found)"
| "markSpans toLowerCase target (span # spans) found =
     (let text = normalize_str toLowerCase (textContent span) in
      if marksToken target text
      then (let (rest, found') = markSpans toLowerCase target spans True
            in (classList_add ''temporary-highlight'' span # rest, found'))
      else (let (rest, found') = markSpans toLowerCase target spans found
            in (span # rest, found')))"

definition temporaryHighlightEffect ::
  "(jsstring \<Rightarrow> jsstring) \<Rightarrow> jsstring option \<Rightarrow> ViewState \<Rightarrow> Span list
     \<Rightarrow> Span list \<times> bool" where
  \<comment> \<open>The body of the effect once its 300 ms delay has passed. It returns the spans
      and \<open>found\<close>; when \<open>found\<close> holds the source arms the 3000 ms timer that clears
      \<open>temporaryHighlight\<close>. A \<open>null\<close> or empty highlight is falsy.\<close>
  "temporaryHighlightEffect toLowerCase temporaryHighlight view spans =
     (case temporaryHighlight of
        None \<Rightarrow> (spans, False)
      | Some h \<Rightarrow>
          if h \<noteq> [] \<and> view = READER
          then markSpans toLowerCase (normalize_str toLowerCase h) spans False
          else (spans, False))"

text \<open>
  The normalisation in the words of its description: the whitespace runs collapsed to
  a single space and the ends trimmed is the words of the text, which are its maximal
  runs of code units that are not whitespace, joined by single spaces; the result is
  case-folded.
\<close>

function wordsOf :: "jsstring \<Rightarrow> jsstring list" where
  "wordsOf str =
     (case dropWhile isSpace str of
        [] \<Rightarrow> []
      | c # cs \<Rightarrow>
          (c # takeWhile (\<lambda>x. \<not> isSpace x) cs) # wordsOf (dropWhile (\<lambda>x. \<not> isSpace x) cs))"
  by pat_completeness auto
termination
proof (relation "measure length")
  show "wf (measure length)" by simp
next
  fix str :: jsstring and c cs
  assume d: "dropWhile isSpace str = c # cs"
  have "length (dropWhile isSpace str) \<le> length str"
    by (rule length_dropWhile_le)
  then have "length (c # cs) \<le> length str"
    unfolding d .
  moreover have "length (dropWhile (\<lambda>x. \<not> isSpace x) cs) \<le> length cs"
    by (rule length_dropWhile_le)
  ultimately show "(dropWhile (\<lambda>x. \<not> isSpace x) cs, str) \<in> measure length" by simp
qed

declare wordsOf.simps [simp del]

definition collapsedTrimmedFolded :: "(jsstring \<Rightarrow> jsstring) \<Rightarrow> jsstring \<Rightarrow> jsstring" where
  "collapsedTrimmedFolded toLowerCase str = toLowerCase (join [32] (wordsOf str))"

section \<open>Data model\<close>

datatype BookStatus = Next | Reading | Paused | Completed | Discarded

type_synonym ArrayBuffer = "nat list"

text \<open>
  The interfaces \<open>Book\<close>, \<open>Note\<close> and \<open>Category\<close>. An optional field is an
  \<open>option\<close>. A field whose name is taken in Isabelle (\<open>id\<close>, \<open>text\<close>) or by another
  record carries a suffix.
\<close>

record Book =
  id_b :: string
  title :: string
  author :: string
  uploadDate :: int
  fileData :: "ArrayBuffer option"
  totalPages :: int
  currentPage :: int
  status :: "BookStatus option"
  category :: "string option"
  rating :: "int option"

record Note =
  id_n :: string
  bookId :: string
  pageNumber_n :: int
  text_n :: string
  highlight :: "string option"
  createdAt :: int

record Category =
  id_c :: string
  name :: string

text \<open>
  \<open>Partial<Book>\<close>, the argument of \<open>updateBookMetadata\<close>: \<open>None\<close> is a key that is
  absent; for an optional field \<open>Some None\<close> is a key present with \<open>undefined\<close>,
  which the spread \<open>{ ...b, ...updates }\<close> copies.
\<close>

record PartialBook =
  p_id :: "string option"
  p_title :: "string option"
  p_author :: "string option"
  p_uploadDate :: "int option"
  p_fileData :: "ArrayBuffer option option"
  p_totalPages :: "int option"
  p_currentPage :: "int option"
  p_status :: "BookStatus option option"
  p_category :: "string option option"
  p_rating :: "int option option"

definition noUpdates :: PartialBook where
  "noUpdates = \<lparr>p_id = None, p_title = None, p_author = None, p_uploadDate = None,
     p_fileData = None, p_totalPages = None, p_currentPage = None, p_status = None,
     p_category = None, p_rating = None\<rparr>"

definition spread :: "Book \<Rightarrow> PartialBook \<Rightarrow> Book" where
  \<comment> \<open>\<open>{ ...b, ...updates }\<close>\<close>
  "spread b updates =
     \<lparr>id_b = (case p_id updates of None \<Rightarrow> id_b b | Some v \<Rightarrow> v),
      title = (case p_title updates of None \<Rightarrow> title b | Some v \<Rightarrow> v),
      author = (case p_author updates of None \<Rightarrow> author b | Some v \<Rightarrow> v),
      uploadDate = (case p_uploadDate updates of None \<Rightarrow> uploadDate b | Some v \<Rightarrow> v),
      fileData = (case p_fileData updates of None \<Rightarrow> fileData b | Some v \<Rightarrow> v),
      totalPages = (case p_totalPages updates of None \<Rightarrow> totalPages b | Some v \<Rightarrow> v),
      currentPage = (case p_currentPage updates of None \<Rightarrow> currentPage b | Some v \<Rightarrow> v),
      status = (case p_status updates of None \<Rightarrow> status b | Some v \<Rightarrow> v),
      category = (case p_category updates of None \<Rightarrow> category b | Some v \<Rightarrow> v),
      rating = (case p_rating updates of None \<Rightarrow> rating b | Some v \<Rightarrow> v)\<rparr>"

datatype js_error = StorageFailure | ParseFailure | TypeError

subsection \<open>The blob store\<close>

text \<open>
  The module \<open>utils/db\<close> behind \<open>saveBookData\<close>, \<open>getBookData\<close> and
  \<open>deleteBookData\<close> is not among the sources. \<open>failing\<close> lists the keys on which
  the store rejects; a rejected call leaves the store as it was.
\<close>

record BlobStore =
  blobs :: "(string \<times> ArrayBuffer) list"
  failing :: "string list"

definition saveBookData :: "string \<Rightarrow> ArrayBuffer \<Rightarrow> BlobStore \<Rightarrow> js_error + BlobStore" where
  \<comment> \<open>Modelled from the spec: \<open>utils/db\<close> is missing; the durable large-object store's
      \<open>put(documentId, binary) \<rightarrow> success|failure\<close>, keyed by the document's id.\<close>
  "saveBookData i buf db =
     (if i \<in> set (failing db) then Inl StorageFailure
      else Inr (db\<lparr>blobs := (i, buf) # filter (\<lambda>kv. fst kv \<noteq> i) (blobs db)\<rparr>))"

definition getBookData :: "string \<Rightarrow> BlobStore \<Rightarrow> js_error + ArrayBuffer option" where
  \<comment> \<open>Modelled from the spec: \<open>utils/db\<close> is missing; the store's
      \<open>get(documentId) \<rightarrow> binary | absent\<close>.\<close>
  "getBookData i db =
     (if i \<in> set (failing db) then Inl StorageFailure else Inr (map_of (blobs db) i))"

definition deleteBookData :: "string \<Rightarrow> BlobStore \<Rightarrow> js_error + BlobStore" where
  \<comment> \<open>Modelled from the spec: \<open>utils/db\<close> is missing; the store's
      \<open>delete(documentId) \<rightarrow> success|failure\<close>.\<close>
  "deleteBookData i db =
     (if i \<in> set (failing db) then Inl StorageFailure
      else Inr (db\<lparr>blobs := filter (\<lambda>kv. fst kv \<noteq> i) (blobs db)\<rparr>))"

subsection \<open>The state of the application\<close>

datatype ToastType = Success | Error | Info

text \<open>The messages of \<open>showToast\<close>, one constructor for each template, with the
  values the template interpolates.\<close>

datatype ToastMessage =
    BooksAdded nat
  | SaveBooksFailed
  | BookDeleted "string option"
  | DeleteBookFailed
  | BatchDeleted string
  | BatchDeleteFailed
  | BookWasDeleted
  | FileNotFound
  | OpenBookFailed
  | NoteSaved
  | SearchFailed
  | CategoryCreated
  | CategoryRemoved

record SearchResult =
  page :: int
  text_r :: jsstring

text \<open>
  The \<open>useState\<close> cells of \<open>App\<close> that the handlers below read or write, and the
  blob store. Cells that only steer the display (panels, scale, layout, theme) are
  left out. A handler reads the cells of the state it is applied to, as its
  closure does, and its functional updates are applied in the order of the calls.
\<close>

record AppState =
  view :: ViewState
  books :: "Book list"
  "notes" :: "Note list"
  categories :: "Category list"
  currentBook :: "Book option"
  currentBookData :: "ArrayBuffer option"
  pageNumber :: int
  numPages :: int
  temporaryHighlight :: "jsstring option"
  booksToDelete :: "string list"
  toast :: "(ToastMessage \<times> ToastType) option"
  selection :: string
  noteText :: string
  searchQuery :: jsstring
  isSearching :: bool
  searchResults :: "SearchResult list"
  newCategoryName :: string
  idb :: BlobStore

definition showToast :: "ToastMessage \<Rightarrow> ToastType \<Rightarrow> AppState \<Rightarrow> AppState" where
  "showToast message type s = s\<lparr>toast := Some (message, type)\<rparr>"

section \<open>The library handlers\<close>

subsection \<open>Upload\<close>

text \<open>
  A file of the input element: its MIME type, its name, and what
  \<open>file.arrayBuffer()\<close> resolves to (\<open>None\<close> when the read is rejected).
\<close>

record File =
  type_f :: string
  name_f :: string
  arrayBuffer :: "ArrayBuffer option"

fun replaceFirst :: "string \<Rightarrow> string \<Rightarrow> string \<Rightarrow> string" where
  \<comment> \<open>\<open>str.replace(pat, rep)\<close> with a string pattern: the first occurrence only\<close>
  "replaceFirst [] pat rep = (if pat = [] then rep else [])"
| "replaceFirst (c # cs) pat rep =
     (if startsWith (c # cs) pat then rep @ drop (length pat) (c # cs)
      else c # replaceFirst cs pat rep)"

definition newBook :: "string \<Rightarrow> int \<Rightarrow> File \<Rightarrow> Book" where
  \<comment> \<open>the record built for a file, from the identifier and the time drawn for it\<close>
  "newBook bookId' now file =
     \<lparr>id_b = bookId',
      title = replaceFirst (name_f file) ''.pdf'' [],
      author = ''Desconhecido'',
      uploadDate = now,
      fileData = None,
      totalPages = 0,
      currentPage = 1,
      status = Some Next,
      category = None,
      rating = Some 0\<rparr>"

text \<open>
  The loop over the files. \<open>randomUUID i\<close> and \<open>now i\<close> are what
  \<open>crypto.randomUUID()\<close> and \<open>Date.now()\<close> return in iteration \<open>i\<close>. A rejection
  leaves the loop with the store as the earlier iterations left it.
\<close>

fun uploadLoop ::
  "(nat \<Rightarrow> string) \<Rightarrow> (nat \<Rightarrow> int) \<Rightarrow> File list \<Rightarrow> nat \<Rightarrow> Book list \<Rightarrow> BlobStore
     \<Rightarrow> (js_error + Book list) \<times> BlobStore" where
  "uploadLoop randomUUID now [] i newBooks db = (Inr newBooks, db)"
| "uploadLoop randomUUID now (file # files) i newBooks db =
     (if type_f file \<noteq> ''application/pdf''
      then uploadLoop randomUUID now files (Suc i) newBooks db
      else (case arrayBuffer file of
              None \<Rightarrow> (Inl StorageFailure, db)
            | Some buf \<Rightarrow>
                (let book = newBook (randomUUID i) (now i) file in
                 case saveBookData (id_b book) buf db of
                   Inl e \<Rightarrow> (Inl e, db)
                 | Inr db' \<Rightarrow>
                     uploadLoop randomUUID now files (Suc i) (newBooks @ [book]) db')))"

definition handleFileUpload ::
  "(nat \<Rightarrow> string) \<Rightarrow> (nat \<Rightarrow> int) \<Rightarrow> File list option \<Rightarrow> AppState \<Rightarrow> AppState" where
  "handleFileUpload randomUUID now files s =
     (case files of
        None \<Rightarrow> s
      | Some fs \<Rightarrow>
          if fs = [] then s
          else (case uploadLoop randomUUID now fs 0 [] (idb s) of
                  (Inr newBooks, db') \<Rightarrow>
                    showToast (BooksAdded (length newBooks)) Success
                      (s\<lparr>idb := db', books := books s @ newBooks\<rparr>)
                | (Inl e, db') \<Rightarrow>
                    showToast SaveBooksFailed Error (s\<lparr>idb := db'\<rparr>)))"

subsection \<open>Delete\<close>

definition closeIfCurrent :: "(string \<Rightarrow> bool) \<Rightarrow> AppState \<Rightarrow> AppState" where
  \<comment> \<open>the block that closes the current book when it is among the deleted ones\<close>
  "closeIfCurrent deleted s =
     (case currentBook s of
        None \<Rightarrow> s
      | Some cb \<Rightarrow>
          if deleted (id_b cb)
          then s\<lparr>currentBook := None, currentBookData := None, view := LIBRARY\<rparr>
          else s)"

definition deleteBook :: "bool \<Rightarrow> string \<Rightarrow> AppState \<Rightarrow> AppState" where
  \<comment> \<open>\<open>confirmed\<close> is the answer of \<open>window.confirm\<close>\<close>
  "deleteBook confirmed i s =
     (let bookToDelete = find (\<lambda>b. id_b b = i) (books s) in
      if \<not> confirmed then s
      else (case deleteBookData i (idb s) of
              Inl e \<Rightarrow> showToast DeleteBookFailed Error s
            | Inr db' \<Rightarrow>
                (let s1 = closeIfCurrent (\<lambda>j. j = i) (s\<lparr>idb := db'\<rparr>);
                     s2 = s1\<lparr>books := filter (\<lambda>b. id_b b \<noteq> i) (books s1)\<rparr>;
                     s3 = s2\<lparr>notes := filter (\<lambda>n. bookId n \<noteq> i) (notes s2)\<rparr>
                 in showToast (BookDeleted (map_option title bookToDelete)) Success s3)))"

definition setFromArray :: "string list \<Rightarrow> string list" where
  \<comment> \<open>\<open>new Set(array)\<close> in insertion order: the first occurrence of each value\<close>
  "setFromArray xs = rev (remdups (rev xs))"

definition toggleBookForDeletion :: "string \<Rightarrow> AppState \<Rightarrow> AppState" where
  "toggleBookForDeletion i s =
     (if i \<in> set (booksToDelete s)
      then s\<lparr>booksToDelete := filter (\<lambda>j. j \<noteq> i) (booksToDelete s)\<rparr>
      else s\<lparr>booksToDelete := booksToDelete s @ [i]\<rparr>)"

definition toggleAllForDeletion :: "AppState \<Rightarrow> AppState" where
  "toggleAllForDeletion s =
     (if length (booksToDelete s) = length (books s)
      then s\<lparr>booksToDelete := []\<rparr>
      else s\<lparr>booksToDelete := setFromArray (map id_b (books s))\<rparr>)"

fun batchLoop ::
  "Book list \<Rightarrow> string list \<Rightarrow> string list \<Rightarrow> BlobStore
     \<Rightarrow> (js_error + string list) \<times> BlobStore" where
  \<comment> \<open>the loop over \<open>idsToDelete\<close>: the title is pushed before the blob is deleted\<close>
  "batchLoop bs [] deletedNames db = (Inr deletedNames, db)"
| "batchLoop bs (i # ids) deletedNames db =
     (let deletedNames' =
            (case find (\<lambda>b. id_b b = i) bs of
               Some book \<Rightarrow> deletedNames @ [title book]
             | None \<Rightarrow> deletedNames)
      in case deleteBookData i db of
           Inl e \<Rightarrow> (Inl e, db)
         | Inr db' \<Rightarrow> batchLoop bs ids deletedNames' db')"

fun digits :: "nat \<Rightarrow> string" where
  "digits n =
     (if n < 10 then [char_of (48 + n)]
      else digits (n div 10) @ [char_of (48 + n mod 10)])"

definition numberToString :: "int \<Rightarrow> string" where
  \<comment> \<open>the decimal form of an integral number, as a template literal prints it\<close>
  "numberToString n = (if n < 0 then ''-'' @ digits (nat (- n)) else digits (nat n))"

definition namesStr :: "string list \<Rightarrow> string" where
  "namesStr deletedNames =
     join '', '' (take 2 deletedNames)
     @ (if length deletedNames > 2
        then '' e outros '' @ numberToString (int (length deletedNames) - 2)
        else [])"

definition executeBatchDelete :: "AppState \<Rightarrow> AppState" where
  "executeBatchDelete s =
     (if booksToDelete s = [] then s
      else (case batchLoop (books s) (booksToDelete s) [] (idb s) of
              (Inl e, db') \<Rightarrow> showToast BatchDeleteFailed Error (s\<lparr>idb := db'\<rparr>)
            | (Inr deletedNames, db') \<Rightarrow>
                (let s1 = closeIfCurrent (\<lambda>j. j \<in> set (booksToDelete s)) (s\<lparr>idb := db'\<rparr>);
                     s2 = s1\<lparr>books := filter (\<lambda>b. id_b b \<notin> set (booksToDelete s)) (books s1)\<rparr>;
                     s3 = s2\<lparr>notes := filter (\<lambda>n. bookId n \<notin> set (booksToDelete s)) (notes s2)\<rparr>;
                     s4 = s3\<lparr>booksToDelete := []\<rparr>
                 in showToast (BatchDeleted (namesStr deletedNames)) Success s4)))"

subsection \<open>Metadata, opening and closing\<close>

text \<open>
  \<open>updateBookMetadata\<close> tests the \<open>currentBook\<close> of its closure, which is the cell as
  the handler's render saw it: the first argument. Its two functional updates act on
  the state they are applied to.
\<close>

definition updateBookMetadata ::
  "Book option \<Rightarrow> string \<Rightarrow> PartialBook \<Rightarrow> AppState \<Rightarrow> AppState" where
  "updateBookMetadata closureBook i updates s =
     (let s1 = s\<lparr>books := map (\<lambda>b. if id_b b = i then spread b updates else b) (books s)\<rparr>
      in case closureBook of
           None \<Rightarrow> s1
         | Some cb \<Rightarrow>
             if id_b cb = i
             then s1\<lparr>currentBook := map_option (\<lambda>prev. spread prev updates) (currentBook s1)\<rparr>
             else s1)"

definition openBook :: "Book \<Rightarrow> int option \<Rightarrow> jsstring option \<Rightarrow> AppState \<Rightarrow> AppState" where
  \<comment> \<open>\<open>targetPage\<close> is \<open>None\<close> when the argument is left out (its default is 1);
      \<open>x || y\<close> on numbers and strings takes \<open>y\<close> when \<open>x\<close> is 0 or empty\<close>
  "openBook book targetPage highlightText s =
     (if find (\<lambda>b. id_b b = id_b book) (books s) = None
      then showToast BookWasDeleted Error s
      else (case getBookData (id_b book) (idb s) of
              Inl e \<Rightarrow> showToast OpenBookFailed Error s
            | Inr None \<Rightarrow> showToast FileNotFound Error s
            | Inr (Some data) \<Rightarrow>
                (let target = (case targetPage of None \<Rightarrow> 1 | Some t \<Rightarrow> t);
                     s1 = s\<lparr>currentBookData := Some data,
                            currentBook := Some book,
                            pageNumber :=
                              (if target \<noteq> 0 then target
                               else if currentPage book \<noteq> 0 then currentPage book else 1),
                            temporaryHighlight :=
                              (case highlightText of
                                 None \<Rightarrow> None
                               | Some h \<Rightarrow> if h = [] then None else Some h),
                            view := READER\<rparr>
                 in if status book = Some Next
                    then updateBookMetadata (currentBook s) (id_b book)
                           (noUpdates\<lparr>p_status := Some (Some Reading)\<rparr>) s1
                    else s1)))"

definition handleJumpToPage :: "int \<Rightarrow> AppState \<Rightarrow> AppState" where
  "handleJumpToPage page' s = s\<lparr>pageNumber := page'\<rparr>"

definition closeBook :: "AppState \<Rightarrow> AppState" where
  "closeBook s =
     (let s1 = (case currentBook s of
                  None \<Rightarrow> s
                | Some cb \<Rightarrow>
                    s\<lparr>books :=
                        map (\<lambda>b. if id_b b = id_b cb
                                 then b\<lparr>currentPage := pageNumber s,
                                        totalPages :=
                                          (if numPages s > 0 then numPages s else totalPages b)\<rparr>
                                 else b)
                            (books s)\<rparr>)
      in s1\<lparr>currentBook := None, currentBookData := None,
            temporaryHighlight := None, view := LIBRARY\<rparr>)"

definition onDocumentLoadSuccess :: "int \<Rightarrow> AppState \<Rightarrow> AppState" where
  \<comment> \<open>the argument is the page count the renderer reports\<close>
  "onDocumentLoadSuccess numPages' s =
     (let s1 = s\<lparr>numPages := numPages'\<rparr>
      in case currentBook s of
           None \<Rightarrow> s1
         | Some cb \<Rightarrow>
             if totalPages cb = 0
             then s1\<lparr>books :=
                       map (\<lambda>b. if id_b b = id_b cb then b\<lparr>totalPages := numPages'\<rparr> else b)
                           (books s1)\<rparr>
             else s1)"

subsection \<open>Notes and categories\<close>

definition saveNote :: "string \<Rightarrow> int \<Rightarrow> AppState \<Rightarrow> AppState" where
  \<comment> \<open>the arguments are what \<open>crypto.randomUUID()\<close> and \<open>Date.now()\<close> return\<close>
  "saveNote uuid now s =
     (case currentBook s of
        None \<Rightarrow> s
      | Some cb \<Rightarrow>
          if noteText s = [] \<and> selection s = [] then s
          else (let newNote = \<lparr>id_n = uuid, bookId = id_b cb, pageNumber_n = pageNumber s,
                                text_n = noteText s, highlight = Some (selection s),
                                createdAt = now\<rparr>
                in showToast NoteSaved Success
                     (s\<lparr>notes := newNote # notes s, noteText := [], selection := []\<rparr>)))"

definition deleteNote :: "string \<Rightarrow> AppState \<Rightarrow> AppState" where
  \<comment> \<open>the delete button of a note: \<open>setNotes(prev => prev.filter(n => n.id !== note.id))\<close>\<close>
  "deleteNote i s = s\<lparr>notes := filter (\<lambda>n. id_n n \<noteq> i) (notes s)\<rparr>"

definition addCategory :: "string \<Rightarrow> AppState \<Rightarrow> AppState" where
  "addCategory uuid s =
     (if trimWith isSpaceChar (newCategoryName s) = [] then s
      else (let newCat = \<lparr>id_c = uuid, name = trimWith isSpaceChar (newCategoryName s)\<rparr>
            in showToast CategoryCreated Success
                 (s\<lparr>categories := categories s @ [newCat], newCategoryName := []\<rparr>)))"

definition deleteCategory :: "bool \<Rightarrow> string \<Rightarrow> AppState \<Rightarrow> AppState" where
  \<comment> \<open>\<open>confirmed\<close> is the answer of \<open>window.confirm\<close>\<close>
  "deleteCategory confirmed i s =
     (if confirmed
      then showToast CategoryRemoved Success
             (s\<lparr>categories := filter (\<lambda>c. id_c c \<noteq> i) (categories s),
                books := map (\<lambda>b. if category b = Some i then b\<lparr>category := None\<rparr> else b)
                             (books s)\<rparr>)
      else s)"

section \<open>Search\<close>

text \<open>
  The parser is a collaborator: \<open>pdfjs.getDocument\<close> resolves to a document or
  rejects, and so does each page's \<open>getPage\<close> and \<open>getTextContent\<close>. A page is the
  list of the \<open>str\<close> of its text items.
\<close>

type_synonym PDFPage = "js_error + jsstring list"
type_synonym PDFDocument = "PDFPage list"

definition createSnippet :: "(jsstring \<Rightarrow> jsstring) \<Rightarrow> jsstring \<Rightarrow> jsstring \<Rightarrow> jsstring" where
  \<comment> \<open>the block under \<open>// Create snippet\<close>, for a page text and the query\<close>
  "createSnippet toLowerCase text searchQuery' =
     (let lowerText = toLowerCase text;
          lowerQuery = toLowerCase searchQuery';
          index = indexOf lowerText lowerQuery;
          start = max 0 (index - 30);
          end' = min (int (length text)) (index + int (length searchQuery') + 30)
      in units ''...'' @ substring text start end' @ units ''...'')"

fun searchLoop ::
  "(jsstring \<Rightarrow> jsstring) \<Rightarrow> jsstring \<Rightarrow> PDFPage list \<Rightarrow> int \<Rightarrow> SearchResult list
     \<Rightarrow> js_error + SearchResult list" where
  \<comment> \<open>the loop \<open>for (let i = 1; i <= total; i++)\<close>, on the pages from \<open>i\<close> on\<close>
  "searchLoop toLowerCase searchQuery' [] i results = Inr results"
| "searchLoop toLowerCase searchQuery' (p # ps) i results =
     (case p of
        Inl e \<Rightarrow> Inl e
      | Inr items \<Rightarrow>
          (let text = join [32] items;
               lowerText = toLowerCase text;
               lowerQuery = toLowerCase searchQuery'
           in if str_includes lowerText lowerQuery
              then (let results' =
                          results @ [\<lparr>page = i,
                                      text_r = createSnippet toLowerCase text searchQuery'\<rparr>]
                    in if length results' > 50 then Inr results'
                       else searchLoop toLowerCase searchQuery' ps (i + 1) results')
              else searchLoop toLowerCase searchQuery' ps (i + 1) results))"

definition handleSearch ::
  "(jsstring \<Rightarrow> jsstring) \<Rightarrow> (ArrayBuffer \<Rightarrow> js_error + PDFDocument) \<Rightarrow> AppState \<Rightarrow> AppState" where
  \<comment> \<open>\<open>getDocument\<close> is the parser, applied to the copy of the payload\<close>
  "handleSearch toLowerCase getDocument s =
     (case currentBookData s of
        None \<Rightarrow> s
      | Some data \<Rightarrow>
          if trim (searchQuery s) = [] then s
          else (let s1 = s\<lparr>isSearching := True, searchResults := []\<rparr>
                in case getDocument data of
                     Inl e \<Rightarrow> (showToast SearchFailed Error s1)\<lparr>isSearching := False\<rparr>
                   | Inr pdf \<Rightarrow>
                       (case searchLoop toLowerCase (searchQuery s) pdf 1 [] of
                          Inl e \<Rightarrow> (showToast SearchFailed Error s1)\<lparr>isSearching := False\<rparr>
                        | Inr results \<Rightarrow>
                            s1\<lparr>searchResults := results, isSearching := False\<rparr>)))"

section \<open>Sorting and grouping of the library view\<close>

datatype GroupingMode = GroupNone | GroupCategory | GroupStatus | GroupRating

datatype SortMode = SortRecent | SortRating | SortProgress | SortPages | SortCompleted

definition orZero :: "int option \<Rightarrow> int" where
  \<comment> \<open>\<open>x || 0\<close> on an optional number\<close>
  "orZero x = (case x of None \<Rightarrow> 0 | Some v \<Rightarrow> v)"

definition compareBooks ::
  "(string \<Rightarrow> string \<Rightarrow> int) \<Rightarrow> SortMode \<Rightarrow> Book \<Rightarrow> Book \<Rightarrow> int" where
  \<comment> \<open>the comparator of \<open>sortBooks\<close>; \<open>localeCompare\<close> is the host's collation\<close>
  "compareBooks localeCompare sortMode a b =
     (case sortMode of
        SortRating \<Rightarrow> orZero (rating b) - orZero (rating a)
      | SortProgress \<Rightarrow> currentPage b - currentPage a
      | SortPages \<Rightarrow> totalPages b - totalPages a
      | SortCompleted \<Rightarrow>
          (let aCompleted = (if status a = Some Completed then 1 else 0 :: int);
               bCompleted = (if status b = Some Completed then 1 else 0 :: int)
           in if aCompleted \<noteq> bCompleted then bCompleted - aCompleted
              else localeCompare (title a) (title b))
      | SortRecent \<Rightarrow> uploadDate b - uploadDate a)"

text \<open>
  \<open>Array.prototype.sort\<close> is stable. It is modelled as the stable insertion sort:
  an element goes before the first later element that the comparator does not put
  ahead of it.
\<close>

fun insertSorted :: "('a \<Rightarrow> 'a \<Rightarrow> int) \<Rightarrow> 'a \<Rightarrow> 'a list \<Rightarrow> 'a list" where
  "insertSorted cmp x [] = [x]"
| "insertSorted cmp x (y # ys) =
     (if cmp x y \<le> 0 then x # y # ys else y # insertSorted cmp x ys)"

fun stableSort :: "('a \<Rightarrow> 'a \<Rightarrow> int) \<Rightarrow> 'a list \<Rightarrow> 'a list" where
  "stableSort cmp [] = []"
| "stableSort cmp (x # xs) = insertSorted cmp x (stableSort cmp xs)"

definition sortBooks ::
  "(string \<Rightarrow> string \<Rightarrow> int) \<Rightarrow> SortMode \<Rightarrow> Book list \<Rightarrow> Book list" where
  "sortBooks localeCompare sortMode list = stableSort (compareBooks localeCompare sortMode) list"

definition statusLabel :: "BookStatus \<Rightarrow> string" where
  \<comment> \<open>the table \<open>labels\<close>; the accented letters are their Latin-1 code units\<close>
  "statusLabel st =
     (case st of
        Next \<Rightarrow> ''Pr'' @ [char_of (243 :: nat)] @ ''ximo''
      | Reading \<Rightarrow> ''Lendo''
      | Paused \<Rightarrow> ''Pausado''
      | Completed \<Rightarrow> ''Conclu'' @ [char_of (237 :: nat)] @ ''do''
      | Discarded \<Rightarrow> ''Descartado'')"

definition groupKey :: "GroupingMode \<Rightarrow> Category list \<Rightarrow> Book \<Rightarrow> string" where
  \<comment> \<open>the key computed for a book in the body of the \<open>forEach\<close>\<close>
  "groupKey groupingMode cats book =
     (case groupingMode of
        GroupCategory \<Rightarrow>
          (case find (\<lambda>c. Some (id_c c) = category book) cats of
             Some cat \<Rightarrow> name cat
           | None \<Rightarrow> ''Sem Categoria'')
      | GroupStatus \<Rightarrow> statusLabel (case status book of None \<Rightarrow> Next | Some st \<Rightarrow> st)
      | GroupRating \<Rightarrow>
          (if orZero (rating book) \<noteq> 0
           then numberToString (orZero (rating book)) @ '' Estrelas''
           else ''Sem Avalia'' @ [char_of (231 :: nat), char_of (227 :: nat)] @ ''o'')
      | GroupNone \<Rightarrow> ''Outros'')"

text \<open>
  \<open>groups\<close> is a plain object, created by \<open>{}\<close>. Its own properties are the
  association list; a key that is not an own property is looked up in
  \<open>Object.prototype\<close>, whose properties are all truthy and none of them an array.
  The association list keeps the keys in the order of their creation; \<open>objectEntries\<close>
  below lists them as \<open>Object.entries\<close> does.
\<close>

definition objectPrototypeKeys :: "string list" where
  "objectPrototypeKeys =
     [''constructor'', ''__proto__'', ''hasOwnProperty'', ''isPrototypeOf'',
      ''propertyIsEnumerable'', ''toLocaleString'', ''toString'', ''valueOf'',
      ''__defineGetter__'', ''__defineSetter__'', ''__lookupGetter__'',
      ''__lookupSetter__'']"

fun updateGroup :: "string \<Rightarrow> Book \<Rightarrow> (string \<times> Book list) list \<Rightarrow> (string \<times> Book list) list" where
  \<comment> \<open>\<open>groups[key].push(book)\<close> on an own property\<close>
  "updateGroup key book [] = []"
| "updateGroup key book ((k, bs) # groups) =
     (if k = key then (k, bs @ [book]) # groups else (k, bs) # updateGroup key book groups)"

fun groupLoop ::
  "(Book \<Rightarrow> string) \<Rightarrow> Book list \<Rightarrow> (string \<times> Book list) list
     \<Rightarrow> js_error + (string \<times> Book list) list" where
  \<comment> \<open>\<open>if (!groups[key]) groups[key] = []; groups[key].push(book);\<close> for each book:
      an inherited property is truthy, so no array is stored, and it has no \<open>push\<close>\<close>
  "groupLoop keyOf [] groups = Inr groups"
| "groupLoop keyOf (book # rest) groups =
     (let key = keyOf book in
      case map_of groups key of
        Some bs \<Rightarrow> groupLoop keyOf rest (updateGroup key book groups)
      | None \<Rightarrow>
          if key \<in> set objectPrototypeKeys then Inl TypeError
          else groupLoop keyOf rest (groups @ [(key, [book])]))"

definition getGroupedBooks ::
  "GroupingMode \<Rightarrow> Category list \<Rightarrow> Book list \<Rightarrow> js_error + (string \<times> Book list) list" where
  \<comment> \<open>the argument is \<open>sortedBooks\<close>\<close>
  "getGroupedBooks groupingMode cats sortedBooks =
     (if groupingMode = GroupNone then Inr [(''Todos'', sortedBooks)]
      else groupLoop (groupKey groupingMode cats) sortedBooks [])"

text \<open>
  \<open>Object.entries\<close> lists the own properties whose key is an array index (the decimal
  form of a number below \<open>2^32 - 1\<close>, without a leading zero) first, in ascending
  order of the number, and then the other keys in the order of their creation.
\<close>

definition isDigit :: "char \<Rightarrow> bool" where
  "isDigit c = (48 \<le> (of_char c :: nat) \<and> (of_char c :: nat) \<le> 57)"

definition decimalValue :: "string \<Rightarrow> int" where
  "decimalValue key = foldl (\<lambda>n c. 10 * n + (of_char c - 48)) 0 key"

definition isArrayIndex :: "string \<Rightarrow> bool" where
  "isArrayIndex key =
     (key \<noteq> [] \<and> list_all isDigit key \<and> (key = ''0'' \<or> hd key \<noteq> CHR ''0'')
      \<and> decimalValue key < 4294967295)"

fun insertEntry :: "string \<times> 'a \<Rightarrow> (string \<times> 'a) list \<Rightarrow> (string \<times> 'a) list" where
  "insertEntry e [] = [e]"
| "insertEntry e (x # xs) =
     (if decimalValue (fst e) \<le> decimalValue (fst x) then e # x # xs
      else x # insertEntry e xs)"

definition objectEntries :: "(string \<times> 'a) list \<Rightarrow> (string \<times> 'a) list" where
  "objectEntries props =
     foldr insertEntry (filter (\<lambda>e. isArrayIndex (fst e)) props) []
     @ filter (\<lambda>e. \<not> isArrayIndex (fst e)) props"

definition groupedBooks ::
  "(string \<Rightarrow> string \<Rightarrow> int) \<Rightarrow> SortMode \<Rightarrow> GroupingMode \<Rightarrow> Category list \<Rightarrow> Book list
     \<Rightarrow> js_error + (string \<times> Book list) list" where
  \<comment> \<open>the entries that \<open>renderLibrary\<close> maps over: sort, then group, then
      \<open>Object.entries(groupedBooks)\<close>\<close>
  "groupedBooks localeCompare sortMode groupingMode cats bs =
     (case getGroupedBooks groupingMode cats (sortBooks localeCompare sortMode bs) of
        Inl e \<Rightarrow> Inl e
      | Inr groups \<Rightarrow> Inr (objectEntries groups))"

section \<open>The handlers as a transition system\<close>

datatype Action =
    HandleFileUpload "nat \<Rightarrow> string" "nat \<Rightarrow> int" "File list option"
  | DeleteBook bool string
  | ToggleBookForDeletion string
  | ToggleAllForDeletion
  | ExecuteBatchDelete
  | UpdateBookMetadata string PartialBook
  | OpenBook Book "int option" "jsstring option"
  | HandleJumpToPage int
  | CloseBook
  | SaveNote string int
  | DeleteNote string
  | OnDocumentLoadSuccess int
  | HandleSearch "jsstring \<Rightarrow> jsstring" "ArrayBuffer \<Rightarrow> js_error + PDFDocument"
  | AddCategory string
  | DeleteCategory bool string

fun step :: "Action \<Rightarrow> AppState \<Rightarrow> AppState" where
  "step (HandleFileUpload randomUUID now files) s = handleFileUpload randomUUID now files s"
| "step (DeleteBook confirmed i) s = deleteBook confirmed i s"
| "step (ToggleBookForDeletion i) s = toggleBookForDeletion i s"
| "step ToggleAllForDeletion s = toggleAllForDeletion s"
| "step ExecuteBatchDelete s = executeBatchDelete s"
| "step (UpdateBookMetadata i updates) s = updateBookMetadata (currentBook s) i updates s"
| "step (OpenBook book targetPage highlightText) s = openBook book targetPage highlightText s"
| "step (HandleJumpToPage p) s = handleJumpToPage p s"
| "step CloseBook s = closeBook s"
| "step (SaveNote uuid now) s = saveNote uuid now s"
| "step (DeleteNote i) s = deleteNote i s"
| "step (OnDocumentLoadSuccess n) s = onDocumentLoadSuccess n s"
| "step (HandleSearch toLowerCase getDocument) s = handleSearch toLowerCase getDocument s"
| "step (AddCategory uuid) s = addCategory uuid s"
| "step (DeleteCategory confirmed i) s = deleteCategory confirmed i s"

fun run :: "Action list \<Rightarrow> AppState \<Rightarrow> AppState" where
  "run [] s = s"
| "run (a # as) s = run as (step a s)"

section \<open>The initial state\<close>

definition emptyStore :: BlobStore where
  "emptyStore = \<lparr>blobs = [], failing = []\<rparr>"

definition initialState :: AppState where
  \<comment> \<open>the initial values of the \<open>useState\<close> cells, over an empty store\<close>
  "initialState =
     \<lparr>view = LIBRARY, books = [], notes = [], categories = [], currentBook = None,
      currentBookData = None, pageNumber = 1, numPages = 0, temporaryHighlight = None,
      booksToDelete = [], toast = None, selection = [], noteText = [], searchQuery = [],
      isSearching = False, searchResults = [], newCategoryName = [], idb = emptyStore\<rparr>"

section \<open>A session used in the examples\<close>

definition pdfFile :: "string \<Rightarrow> File" where
  "pdfFile n = \<lparr>type_f = ''application/pdf'', name_f = n, arrayBuffer = Some [37, 80, 68, 70]\<rparr>"

definition sessionState :: AppState where
  \<comment> \<open>a book is uploaded, opened, annotated on page 3 and closed\<close>
  "sessionState =
     run [HandleFileUpload (\<lambda>i. ''b1'') (\<lambda>i. 1000) (Some [pdfFile ''dune.pdf'']),
          OpenBook (newBook ''b1'' 1000 (pdfFile ''dune.pdf'')) None None,
          HandleJumpToPage 3,
          SaveNote ''n1'' 2000,
          CloseBook]
       (initialState\<lparr>noteText := ''hello''\<rparr>)"

definition libraryState :: AppState where
  \<comment> \<open>two books are uploaded, a note is kept for each, and both are selected for deletion\<close>
  "libraryState =
     (run [HandleFileUpload (\<lambda>i. if i = 0 then ''b1'' else ''b2'') (\<lambda>i. 1000)
             (Some [pdfFile ''dune.pdf'', pdfFile ''emma.pdf'']),
           ToggleAllForDeletion]
        initialState)
     \<lparr>notes := [\<lparr>id_n = ''n2'', bookId = ''b2'', pageNumber_n = 1, text_n = ''two'',
                   highlight = None, createdAt = 3000\<rparr>,
                 \<lparr>id_n = ''n1'', bookId = ''b1'', pageNumber_n = 1, text_n = ''one'',
                   highlight = None, createdAt = 2000\<rparr>]\<rparr>"


definition categorisedState :: AppState where
  \<comment> \<open>the category Sci-Fi is created and given to the first of the two books\<close>
  "categorisedState =
     run [AddCategory ''c1'',
          UpdateBookMetadata ''b1'' (noUpdates\<lparr>p_category := Some (Some ''c1'')\<rparr>)]
       (libraryState\<lparr>newCategoryName := ''Sci-Fi''\<rparr>)"



section \<open>Properties\<close>

subsection \<open>Substrings\<close>

lemma startsWith_iff: "startsWith str pat \<longleftrightarrow> (\<exists>ys. str = pat @ ys)"
  by (induction str pat rule: startsWith.induct) auto

lemma str_includes_Cons:
  "(\<exists>xs ys. c # cs = xs @ pat @ ys) \<longleftrightarrow> (\<exists>ys. c # cs = pat @ ys) \<or> (\<exists>xs ys. cs = xs @ pat @ ys)"
proof
  assume "\<exists>xs ys. c # cs = xs @ pat @ ys"
  then obtain xs ys where e: "c # cs = xs @ pat @ ys" by blast
  show "(\<exists>ys. c # cs = pat @ ys) \<or> (\<exists>xs ys. cs = xs @ pat @ ys)"
  proof (cases xs)
    case Nil
    with e show ?thesis by auto
  next
    case (Cons x xs')
    with e have "cs = xs' @ pat @ ys" by simp
    then show ?thesis by blast
  qed
next
  assume "(\<exists>ys. c # cs = pat @ ys) \<or> (\<exists>xs ys. cs = xs @ pat @ ys)"
  then show "\<exists>xs ys. c # cs = xs @ pat @ ys"
  proof
    assume "\<exists>ys. c # cs = pat @ ys"
    then obtain ys where "c # cs = [] @ pat @ ys" by auto
    then show ?thesis by blast
  next
    assume "\<exists>xs ys. cs = xs @ pat @ ys"
    then obtain xs ys where "c # cs = (c # xs) @ pat @ ys" by auto
    then show ?thesis by blast
  qed
qed

lemma str_includes_iff: "str_includes str pat \<longleftrightarrow> (\<exists>xs ys. str = xs @ pat @ ys)"
proof (induction str)
  case Nil
  show ?case by auto
next
  case (Cons c cs)
  then show ?case
    unfolding str_includes_Cons by (simp add: startsWith_iff)
qed

lemma str_includes_length: "str_includes str pat \<Longrightarrow> length pat \<le> length str"
  by (auto simp: str_includes_iff)

lemma startsWith_take: "startsWith str pat \<longleftrightarrow> take (length pat) str = pat"
  by (induction str pat rule: startsWith.induct) auto

lemma indexOfFrom_first:
  "str_includes str pat \<Longrightarrow>
   \<exists>n. indexOfFrom str pat k = k + int n \<and> n + length pat \<le> length str
     \<and> take (length pat) (drop n str) = pat
     \<and> (\<forall>j<n. take (length pat) (drop j str) \<noteq> pat)"
proof (induction str arbitrary: k)
  case Nil
  then show ?case by simp
next
  case (Cons c cs)
  show ?case
  proof (cases "startsWith (c # cs) pat")
    case True
    then have "take (length pat) (c # cs) = pat" by (simp only: startsWith_take)
    moreover from True obtain ys where "c # cs = pat @ ys"
      unfolding startsWith_iff by blast
    then have "length pat \<le> length (c # cs)"
      by (metis le_add1 length_append)
    ultimately show ?thesis using True
      by (intro exI [of _ 0]) simp
  next
    case False
    with Cons.prems have "str_includes cs pat" by simp
    from Cons.IH [OF this, of "k + 1"] obtain n where
      n: "indexOfFrom cs pat (k + 1) = k + 1 + int n" "n + length pat \<le> length cs"
         "take (length pat) (drop n cs) = pat"
         "\<forall>j<n. take (length pat) (drop j cs) \<noteq> pat"
      by blast
    have "\<forall>j<Suc n. take (length pat) (drop j (c # cs)) \<noteq> pat"
    proof (intro allI impI)
      fix j assume j: "j < Suc n"
      show "take (length pat) (drop j (c # cs)) \<noteq> pat"
      proof (cases j)
        case 0
        with False show ?thesis by (simp add: startsWith_take)
      next
        case (Suc j')
        with j n(4) show ?thesis by simp
      qed
    qed
    with n False show ?thesis
      by (intro exI [of _ "Suc n"]) simp
  qed
qed

lemma indexOf_first:
  "str_includes str pat \<Longrightarrow>
   \<exists>n. indexOf str pat = int n \<and> n + length pat \<le> length str
     \<and> take (length pat) (drop n str) = pat
     \<and> (\<forall>j<n. take (length pat) (drop j str) \<noteq> pat)"
  using indexOfFrom_first [of str pat 0] by (simp add: indexOf_def)

lemma substring_take_drop:
  "a \<le> b \<Longrightarrow> b \<le> length str \<Longrightarrow> substring str (int a) (int b) = take (b - a) (drop a str)"
  by (simp add: substring_def Let_def min_def max_def nat_diff_distrib')

subsection \<open>Deleting a book\<close>

lemma map_of_filter_key:
  "map_of (filter (\<lambda>kv. fst kv \<noteq> i) xs) j = (if j = i then None else map_of xs j)"
  by (induction xs) auto

lemma deleteBookData_cases:
  "deleteBookData i db =
     (if i \<in> set (failing db) then Inl StorageFailure
      else Inr (db\<lparr>blobs := filter (\<lambda>kv. fst kv \<noteq> i) (blobs db)\<rparr>))"
  by (simp add: deleteBookData_def)

lemma closeIfCurrent_frame:
  "books (closeIfCurrent d s) = books s"
  "notes (closeIfCurrent d s) = notes s"
  "idb (closeIfCurrent d s) = idb s"
  "categories (closeIfCurrent d s) = categories s"
  by (simp_all add: closeIfCurrent_def split: option.splits)

lemma deleteBook_ok:
  assumes "deleteBookData i (idb s) = Inr db'"
  shows "books (deleteBook True i s) = filter (\<lambda>b. id_b b \<noteq> i) (books s)"
    and "notes (deleteBook True i s) = filter (\<lambda>n. bookId n \<noteq> i) (notes s)"
    and "idb (deleteBook True i s) = db'"
    and "toast (deleteBook True i s)
           = Some (BookDeleted (map_option title (find (\<lambda>b. id_b b = i) (books s))), Success)"
  using assms by (simp_all add: deleteBook_def Let_def showToast_def closeIfCurrent_frame)

lemma deleteBook_failed:
  assumes "deleteBookData i (idb s) = Inl e"
  shows "deleteBook True i s = s\<lparr>toast := Some (DeleteBookFailed, Error)\<rparr>"
  using assms by (simp add: deleteBook_def Let_def showToast_def)

text \<open>
  C2. For every book \<open>d\<close> of the library, a confirmed \<open>deleteBook\<close> of its id either
  deletes the blob, and then removes the record, every note of the book and leaves no
  blob under the id while all other blobs stay; or the blob delete is rejected, and
  then books, notes and store are unchanged. A library in which exactly the ids of the
  records have blobs stays so in both cases.
\<close>

theorem deleteBook_cascade:
  assumes "d \<in> set (books s)"
  shows "(case deleteBookData (id_b d) (idb s) of
            Inr db' \<Rightarrow>
              books (deleteBook True (id_b d) s) = filter (\<lambda>b. id_b b \<noteq> id_b d) (books s)
              \<and> notes (deleteBook True (id_b d) s) = filter (\<lambda>n. bookId n \<noteq> id_b d) (notes s)
              \<and> d \<notin> set (books (deleteBook True (id_b d) s))
              \<and> id_b d \<notin> id_b ` set (books (deleteBook True (id_b d) s))
              \<and> id_b d \<notin> bookId ` set (notes (deleteBook True (id_b d) s))
              \<and> map_of (blobs (idb (deleteBook True (id_b d) s))) (id_b d) = None
              \<and> (\<forall>j. j \<noteq> id_b d \<longrightarrow>
                    map_of (blobs (idb (deleteBook True (id_b d) s))) j = map_of (blobs (idb s)) j)
          | Inl e \<Rightarrow>
              books (deleteBook True (id_b d) s) = books s
              \<and> notes (deleteBook True (id_b d) s) = notes s
              \<and> idb (deleteBook True (id_b d) s) = idb s
              \<and> toast (deleteBook True (id_b d) s) = Some (DeleteBookFailed, Error))
       \<and> ((\<forall>j. j \<in> id_b ` set (books s) \<longleftrightarrow> map_of (blobs (idb s)) j \<noteq> None) \<longrightarrow>
            (\<forall>j. j \<in> id_b ` set (books (deleteBook True (id_b d) s))
                   \<longleftrightarrow> map_of (blobs (idb (deleteBook True (id_b d) s))) j \<noteq> None))"
proof (cases "id_b d \<in> set (failing (idb s))")
  case True
  then have "deleteBookData (id_b d) (idb s) = Inl StorageFailure"
    by (simp add: deleteBookData_cases)
  from this deleteBook_failed [OF this] show ?thesis by simp
next
  case False
  let ?db = "(idb s)\<lparr>blobs := filter (\<lambda>kv. fst kv \<noteq> id_b d) (blobs (idb s))\<rparr>"
  from False have ok: "deleteBookData (id_b d) (idb s) = Inr ?db"
    by (simp add: deleteBookData_cases)
  note r = deleteBook_ok [OF ok]
  show ?thesis
    unfolding ok sum.case r(1) r(2) r(3)
    by (auto simp: map_of_filter_key)
qed


lemma sessionState_eval:
  "sessionState =
     initialState
       \<lparr>books := [(newBook ''b1'' 1000 (pdfFile ''dune.pdf''))\<lparr>status := Some Reading, currentPage := 3\<rparr>],
        notes := [\<lparr>id_n = ''n1'', bookId = ''b1'', pageNumber_n = 3, text_n = ''hello'',
                   highlight = Some [], createdAt = 2000\<rparr>],
        pageNumber := 3,
        toast := Some (NoteSaved, Success),
        idb := \<lparr>blobs = [(''b1'', [37, 80, 68, 70])], failing = []\<rparr>\<rparr>"
  by code_simp

theorem deleteBook_cascade_witness:
  "(newBook ''b1'' 1000 (pdfFile ''dune.pdf''))\<lparr>status := Some Reading, currentPage := 3\<rparr>
     \<in> set (books sessionState)
   \<and> books (deleteBook True ''b1'' sessionState) = []
   \<and> notes (deleteBook True ''b1'' sessionState) = []
   \<and> map_of (blobs (idb (deleteBook True ''b1'' sessionState))) ''b1'' = None"
proof -
  let ?d = "(newBook ''b1'' 1000 (pdfFile ''dune.pdf''))\<lparr>status := Some Reading, currentPage := 3\<rparr>"
  have i: "id_b ?d = ''b1''" by (simp add: newBook_def)
  have h: "?d \<in> set (books sessionState)" by (simp add: sessionState_eval)
  have ok: "deleteBookData ''b1'' (idb sessionState) = Inr \<lparr>blobs = [], failing = []\<rparr>"
    by (simp add: sessionState_eval deleteBookData_def)
  from deleteBook_cascade [OF h] h show ?thesis
    unfolding i ok by (simp add: sessionState_eval newBook_def)
qed

lemma libraryState_eval:
  "libraryState =
     initialState
       \<lparr>books := [newBook ''b1'' 1000 (pdfFile ''dune.pdf''),
                  newBook ''b2'' 1000 (pdfFile ''emma.pdf'')],
        notes := [\<lparr>id_n = ''n2'', bookId = ''b2'', pageNumber_n = 1, text_n = ''two'',
                   highlight = None, createdAt = 3000\<rparr>,
                  \<lparr>id_n = ''n1'', bookId = ''b1'', pageNumber_n = 1, text_n = ''one'',
                   highlight = None, createdAt = 2000\<rparr>],
        booksToDelete := [''b1'', ''b2''],
        toast := Some (BooksAdded 2, Success),
        idb := \<lparr>blobs = [(''b2'', [37, 80, 68, 70]), (''b1'', [37, 80, 68, 70])],
                failing = []\<rparr>\<rparr>"
  by code_simp

lemma id_b_newBook: "id_b (newBook i t f) = i"
  by (simp add: newBook_def)

lemma newBook_defaults:
  "status (newBook i t f) = Some Next" "rating (newBook i t f) = Some 0"
  "currentPage (newBook i t f) = 1" "totalPages (newBook i t f) = 0"
  "category (newBook i t f) = None"
  by (simp_all add: newBook_def)

subsection \<open>Deleting a category\<close>

lemma deleteCategory_confirmed:
  "books (deleteCategory True i s)
     = map (\<lambda>b. if category b = Some i then b\<lparr>category := None\<rparr> else b) (books s)"
  "categories (deleteCategory True i s) = filter (\<lambda>c. id_c c \<noteq> i) (categories s)"
  "notes (deleteCategory True i s) = notes s"
  "idb (deleteCategory True i s) = idb s"
  by (simp_all add: deleteCategory_def showToast_def)

lemma length_filter_cleared:
  "length (filter (\<lambda>b. category b = None)
             (map (\<lambda>b. if category b = Some i then b\<lparr>category := None\<rparr> else b) bs))
     = length (filter (\<lambda>b. category b = None) bs)
       + length (filter (\<lambda>b. category b = Some i) bs)"
  by (induction bs) auto

text \<open>
  C6. For every category \<open>c\<close> of the library, a confirmed \<open>deleteCategory\<close> of its id
  removes the categories with that id and no other, keeps every book at its place,
  clears the field \<open>category\<close> of exactly the books that referred to the id, and
  changes no other field of any book; notes and store are untouched.
\<close>

theorem deleteCategory_nulls_out:
  assumes "c \<in> set (categories s)"
  shows "let s' = deleteCategory True (id_c c) s in
           categories s' = filter (\<lambda>x. id_c x \<noteq> id_c c) (categories s)
         \<and> c \<notin> set (categories s')
         \<and> length (books s') = length (books s)
         \<and> (\<forall>k < length (books s).
               books s' ! k =
                 (if category (books s ! k) = Some (id_c c)
                  then (books s ! k)\<lparr>category := None\<rparr> else books s ! k))
         \<and> map (\<lambda>b. b\<lparr>category := None\<rparr>) (books s') = map (\<lambda>b. b\<lparr>category := None\<rparr>) (books s)
         \<and> length (filter (\<lambda>b. category b = None) (books s'))
             = length (filter (\<lambda>b. category b = None) (books s))
               + length (filter (\<lambda>b. category b = Some (id_c c)) (books s))
         \<and> (\<forall>b \<in> set (books s'). category b \<noteq> Some (id_c c))
         \<and> notes s' = notes s \<and> idb s' = idb s"
  unfolding Let_def deleteCategory_confirmed length_filter_cleared
  by (auto simp: map_idI)

lemma categorisedState_eval:
  "categorisedState =
     libraryState
       \<lparr>books := [(newBook ''b1'' 1000 (pdfFile ''dune.pdf''))\<lparr>category := Some ''c1''\<rparr>,
                  newBook ''b2'' 1000 (pdfFile ''emma.pdf'')],
        categories := [\<lparr>id_c = ''c1'', name = ''Sci-Fi''\<rparr>],
        toast := Some (CategoryCreated, Success)\<rparr>"
  by code_simp

theorem deleteCategory_nulls_out_witness:
  "\<lparr>id_c = ''c1'', name = ''Sci-Fi''\<rparr> \<in> set (categories categorisedState)
   \<and> categories (deleteCategory True ''c1'' categorisedState) = []
   \<and> length (books (deleteCategory True ''c1'' categorisedState)) = 2
   \<and> books (deleteCategory True ''c1'' categorisedState) ! 0 = newBook ''b1'' 1000 (pdfFile ''dune.pdf'')
   \<and> books (deleteCategory True ''c1'' categorisedState) ! 1 = newBook ''b2'' 1000 (pdfFile ''emma.pdf'')"
proof -
  let ?c = "\<lparr>id_c = ''c1'', name = ''Sci-Fi''\<rparr>"
  let ?s' = "deleteCategory True (id_c ?c) categorisedState"
  have h: "?c \<in> set (categories categorisedState)" by (simp add: categorisedState_eval)
  note T = deleteCategory_nulls_out [OF h, unfolded Let_def]
  from T have c: "categories ?s' = filter (\<lambda>x. id_c x \<noteq> id_c ?c) (categories categorisedState)"
    by (rule conjunct1)
  from T have l: "length (books ?s') = length (books categorisedState)"
    by (elim conjE)
  from T have n: "\<forall>k < length (books categorisedState).
               books ?s' ! k =
                 (if category (books categorisedState ! k) = Some (id_c ?c)
                  then (books categorisedState ! k)\<lparr>category := None\<rparr>
                  else books categorisedState ! k)"
    by (elim conjE)
  have e0: "books ?s' ! 0 = newBook ''b1'' 1000 (pdfFile ''dune.pdf'')"
    using n [rule_format, of 0] by (simp add: categorisedState_eval newBook_def)
  have e1: "books ?s' ! 1 = newBook ''b2'' 1000 (pdfFile ''emma.pdf'')"
    using n [rule_format, of 1] by (simp add: categorisedState_eval newBook_def)
  from h c l e0 e1 show ?thesis
    by (simp add: categorisedState_eval)
qed

subsection \<open>Changes of status\<close>

lemma spread_status:
  "spread b (noUpdates\<lparr>p_status := Some (Some st)\<rparr>) = b\<lparr>status := Some st\<rparr>"
  by (simp add: spread_def noUpdates_def)

lemma updateBookMetadata_books:
  "books (updateBookMetadata cb i u s) = map (\<lambda>b. if id_b b = i then spread b u else b) (books s)"
  by (simp add: updateBookMetadata_def Let_def split: option.splits)

lemma openBook_books:
  "books (openBook book tp hl s) =
     (if find (\<lambda>b. id_b b = id_b book) (books s) \<noteq> None
         \<and> (\<exists>data. getBookData (id_b book) (idb s) = Inr (Some data))
         \<and> status book = Some Next
      then map (\<lambda>b. if id_b b = id_b book then b\<lparr>status := Some Reading\<rparr> else b) (books s)
      else books s)"
  by (auto simp: openBook_def Let_def showToast_def updateBookMetadata_books spread_status
           split: sum.splits option.splits)

lemma openBook_opened:
  assumes "book \<in> set (books s)" and "getBookData (id_b book) (idb s) = Inr (Some data)"
  shows "view (openBook book tp hl s) = READER"
    and "currentBookData (openBook book tp hl s) = Some data"
proof -
  from assms(1) have "find (\<lambda>b. id_b b = id_b book) (books s) \<noteq> None"
    by (auto simp: find_None_iff)
  with assms(2) show "view (openBook book tp hl s) = READER"
    and "currentBookData (openBook book tp hl s) = Some data"
    by (auto simp: openBook_def Let_def updateBookMetadata_def split: option.splits)
qed

lemma same_id_same_book:
  "distinct (map id_b bs) \<Longrightarrow> b \<in> set bs \<Longrightarrow> b' \<in> set bs \<Longrightarrow> id_b b' = id_b b \<Longrightarrow> b' = b"
  by (meson distinct_map inj_onD)

lemma status_kept:
  assumes "distinct (map id_b bs)" and "b \<in> set bs" and "b' \<in> set bs'" and "id_b b' = id_b b"
    and "set bs' \<subseteq> set bs
         \<or> (set bs \<subseteq> set bs' \<and> distinct (map id_b bs'))
         \<or> (\<exists>f. bs' = map f bs \<and> (\<forall>x. id_b (f x) = id_b x \<and> status (f x) = status x))"
  shows "status b' = status b"
  using assms(5)
proof (elim disjE conjE exE)
  assume "set bs' \<subseteq> set bs"
  with assms(3) have "b' \<in> set bs" by auto
  from same_id_same_book [OF assms(1,2) this assms(4)] show ?thesis by simp
next
  assume "set bs \<subseteq> set bs'" "distinct (map id_b bs')"
  with assms(2) have "b \<in> set bs'" by auto
  from same_id_same_book [OF \<open>distinct (map id_b bs')\<close> this assms(3,4)] show ?thesis by simp
next
  fix f assume f: "bs' = map f bs" "\<forall>x. id_b (f x) = id_b x \<and> status (f x) = status x"
  with assms(3) obtain b0 where b0: "b0 \<in> set bs" "b' = f b0" by auto
  with f assms(4) have "id_b b0 = id_b b" by simp
  from same_id_same_book [OF assms(1,2) b0(1) this] b0 f show ?thesis by simp
qed

lemma handleFileUpload_books:
  "set (books s) \<subseteq> set (books (handleFileUpload u n fs s))"
  by (auto simp: handleFileUpload_def showToast_def split: option.splits prod.splits sum.splits)

lemma deleteBook_books:
  "set (books (deleteBook c i s)) \<subseteq> set (books s)"
  by (auto simp: deleteBook_def Let_def showToast_def closeIfCurrent_frame split: sum.splits)

lemma executeBatchDelete_books:
  "set (books (executeBatchDelete s)) \<subseteq> set (books s)"
  by (auto simp: executeBatchDelete_def Let_def showToast_def closeIfCurrent_frame
           split: sum.splits prod.splits)

lemma closeBook_books:
  "\<exists>f. books (closeBook s) = map f (books s) \<and> (\<forall>x. id_b (f x) = id_b x \<and> status (f x) = status x)"
proof (cases "currentBook s")
  case None
  then have "books (closeBook s) = map (\<lambda>x. x) (books s)" by (simp add: closeBook_def)
  then show ?thesis by blast
next
  case (Some cb)
  let ?f = "\<lambda>b. if id_b b = id_b cb
                 then b\<lparr>currentPage := pageNumber s,
                        totalPages := (if numPages s > 0 then numPages s else totalPages b)\<rparr>
                 else b"
  from Some have "books (closeBook s) = map ?f (books s)" by (simp add: closeBook_def)
  moreover have "\<forall>x. id_b (?f x) = id_b x \<and> status (?f x) = status x" by simp
  ultimately show ?thesis by blast
qed

lemma onDocumentLoadSuccess_books:
  "\<exists>f. books (onDocumentLoadSuccess n s) = map f (books s)
       \<and> (\<forall>x. id_b (f x) = id_b x \<and> status (f x) = status x)"
proof (cases "\<exists>cb. currentBook s = Some cb \<and> totalPages cb = 0")
  case False
  then have "books (onDocumentLoadSuccess n s) = map (\<lambda>x. x) (books s)"
    by (auto simp: onDocumentLoadSuccess_def Let_def split: option.splits)
  then show ?thesis by blast
next
  case True
  then obtain cb where cb: "currentBook s = Some cb" "totalPages cb = 0" by blast
  let ?f = "\<lambda>b. if id_b b = id_b cb then b\<lparr>totalPages := n\<rparr> else b"
  from cb have "books (onDocumentLoadSuccess n s) = map ?f (books s)"
    by (simp add: onDocumentLoadSuccess_def Let_def)
  moreover have "\<forall>x. id_b (?f x) = id_b x \<and> status (?f x) = status x" by simp
  ultimately show ?thesis by blast
qed

lemma deleteCategory_books:
  "\<exists>f. books (deleteCategory c i s) = map f (books s)
       \<and> (\<forall>x. id_b (f x) = id_b x \<and> status (f x) = status x)"
proof (cases c)
  case False
  then have "books (deleteCategory c i s) = map (\<lambda>x. x) (books s)" by (simp add: deleteCategory_def)
  then show ?thesis by blast
next
  case True
  let ?f = "\<lambda>b. if category b = Some i then b\<lparr>category := None\<rparr> else b"
  from True have "books (deleteCategory c i s) = map ?f (books s)"
    by (simp add: deleteCategory_confirmed)
  moreover have "\<forall>x. id_b (?f x) = id_b x \<and> status (?f x) = status x" by simp
  ultimately show ?thesis by blast
qed

lemma other_handlers_books:
  "books (toggleBookForDeletion i s) = books s"
  "books (toggleAllForDeletion s) = books s"
  "books (handleJumpToPage p s) = books s"
  "books (saveNote uuid now s) = books s"
  "books (deleteNote i s) = books s"
  "books (handleSearch l g s) = books s"
  "books (addCategory uuid s) = books s"
  by (auto simp: toggleBookForDeletion_def toggleAllForDeletion_def handleJumpToPage_def
        saveNote_def deleteNote_def handleSearch_def addCategory_def Let_def showToast_def
        split: option.splits sum.splits)

lemma step_keeps_status:
  assumes "distinct (map id_b (books s))" and "distinct (map id_b (books (step a s)))"
    and "b \<in> set (books s)" and "b' \<in> set (books (step a s))" and "id_b b' = id_b b"
    and "\<forall>i u. a \<noteq> UpdateBookMetadata i u" and "\<forall>book tp hl. a \<noteq> OpenBook book tp hl"
  shows "status b' = status b"
proof -
  have "set (books (step a s)) \<subseteq> set (books s)
         \<or> (set (books s) \<subseteq> set (books (step a s)) \<and> distinct (map id_b (books (step a s))))
         \<or> (\<exists>f. books (step a s) = map f (books s)
               \<and> (\<forall>x. id_b (f x) = id_b x \<and> status (f x) = status x))"
  proof (cases a)
    case (HandleFileUpload u n fs)
    with handleFileUpload_books [of s u n fs] assms(2) show ?thesis by simp
  next
    case (DeleteBook c i)
    with deleteBook_books [of c i s] show ?thesis by simp
  next
    case ExecuteBatchDelete
    with executeBatchDelete_books [of s] show ?thesis by simp
  next
    case CloseBook
    with closeBook_books [of s] show ?thesis by simp
  next
    case (OnDocumentLoadSuccess n)
    with onDocumentLoadSuccess_books [of n s] show ?thesis by simp
  next
    case (DeleteCategory c i)
    with deleteCategory_books [of c i s] show ?thesis by simp
  next
    case (UpdateBookMetadata i u)
    with assms(6) show ?thesis by simp
  next
    case (OpenBook book tp hl)
    with assms(7) show ?thesis by simp
  qed (simp_all add: other_handlers_books)
  from status_kept [OF assms(1,3,4,5) this] show ?thesis .
qed

text \<open>
  C9. Opening a book of the library whose blob is found and whose status is \<open>next\<close>
  sets the status of its record to \<open>reading\<close>; opening a book with any other status
  leaves every record as it was. Among all handlers, with the ids of the library
  distinct, a record changes its status only in \<open>updateBookMetadata\<close> called by the
  user, and in \<open>openBook\<close>, which takes it from \<open>next\<close> to \<open>reading\<close>.
\<close>

theorem open_is_the_only_automatic_status_change:
  "(book \<in> set (books s) \<and> getBookData (id_b book) (idb s) = Inr (Some data)
      \<and> status book = Some Next \<longrightarrow>
        books (openBook book tp hl s)
          = map (\<lambda>x. if id_b x = id_b book then x\<lparr>status := Some Reading\<rparr> else x) (books s)
      \<and> book\<lparr>status := Some Reading\<rparr> \<in> set (books (openBook book tp hl s))
      \<and> view (openBook book tp hl s) = READER)
   \<and> (status book \<noteq> Some Next \<longrightarrow> books (openBook book tp hl s) = books s)
   \<and> ((\<forall>i u. a \<noteq> UpdateBookMetadata i u)
      \<and> distinct (map id_b (books s)) \<and> distinct (map id_b (books (step a s)))
      \<and> b \<in> set (books s) \<and> b' \<in> set (books (step a s))
      \<and> id_b b' = id_b b \<and> status b' \<noteq> status b \<longrightarrow>
        (\<exists>opened tp' hl'. a = OpenBook opened tp' hl' \<and> id_b opened = id_b b
           \<and> status opened = Some Next \<and> status b' = Some Reading
           \<and> (opened \<in> set (books s) \<longrightarrow> status b = Some Next)))"
proof (intro conjI impI)
  assume h: "book \<in> set (books s) \<and> getBookData (id_b book) (idb s) = Inr (Some data)
      \<and> status book = Some Next"
  then have f: "find (\<lambda>b. id_b b = id_b book) (books s) \<noteq> None"
    by (auto simp: find_None_iff)
  with h show m: "books (openBook book tp hl s)
          = map (\<lambda>x. if id_b x = id_b book then x\<lparr>status := Some Reading\<rparr> else x) (books s)"
    by (simp add: openBook_books)
  from h show "book\<lparr>status := Some Reading\<rparr> \<in> set (books (openBook book tp hl s))"
    unfolding m by force
  from h show "view (openBook book tp hl s) = READER"
    by (simp add: openBook_opened)
next
  assume "status book \<noteq> Some Next"
  then show "books (openBook book tp hl s) = books s"
    by (simp add: openBook_books)
next
  assume h: "(\<forall>i u. a \<noteq> UpdateBookMetadata i u)
      \<and> distinct (map id_b (books s)) \<and> distinct (map id_b (books (step a s)))
      \<and> b \<in> set (books s) \<and> b' \<in> set (books (step a s))
      \<and> id_b b' = id_b b \<and> status b' \<noteq> status b"
  show "\<exists>opened tp' hl'. a = OpenBook opened tp' hl' \<and> id_b opened = id_b b
           \<and> status opened = Some Next \<and> status b' = Some Reading
           \<and> (opened \<in> set (books s) \<longrightarrow> status b = Some Next)"
  proof (cases "\<exists>opened tp' hl'. a = OpenBook opened tp' hl'")
    case False
    with h step_keeps_status [of s a b b'] show ?thesis by blast
  next
    case True
    then obtain opened tp' hl' where a: "a = OpenBook opened tp' hl'" by blast
    let ?g = "\<lambda>x. if id_b x = id_b opened then x\<lparr>status := Some Reading\<rparr> else x"
    have changed: "books (openBook opened tp' hl' s) \<noteq> books s"
    proof
      assume "books (openBook opened tp' hl' s) = books s"
      with h a have "b' \<in> set (books s)" by simp
      moreover from h have "distinct (map id_b (books s))" "b \<in> set (books s)"
        "id_b b' = id_b b" by simp_all
      ultimately have "b' = b" using same_id_same_book [of "books s" b b'] by simp
      with h show False by simp
    qed
    then have nxt: "status opened = Some Next"
      and m: "books (openBook opened tp' hl' s) = map ?g (books s)"
      by (auto simp: openBook_books split: if_splits)
    from h have d: "distinct (map id_b (books s))" and bin: "b \<in> set (books s)"
      and ids: "id_b b' = id_b b" and ne: "status b' \<noteq> status b" by simp_all
    from h have "b' \<in> set (books (step a s))" by (elim conjE)
    then have "b' \<in> set (map ?g (books s))" unfolding a step.simps m .
    then obtain b0 where b0: "b0 \<in> set (books s)" "b' = ?g b0" by auto
    from b0(2) have "id_b b' = id_b b0" by (simp split: if_splits)
    with ids have "id_b b0 = id_b b" by simp
    from same_id_same_book [OF d bin b0(1) this] have "b0 = b" .
    with b0(2) ne have hit: "id_b b = id_b opened" "status b' = Some Reading"
      by (simp_all split: if_splits)
    have "status b = Some Next" if "opened \<in> set (books s)"
    proof -
      from h have d: "distinct (map id_b (books s))" and bin: "b \<in> set (books s)" by simp_all
      from same_id_same_book [OF d bin that] hit(1) have "opened = b" by simp
      with nxt show ?thesis by simp
    qed
    with a nxt hit show ?thesis by simp
  qed
qed

theorem open_is_the_only_automatic_status_change_witness:
  "newBook ''b1'' 1000 (pdfFile ''dune.pdf'') \<in> set (books libraryState)
   \<and> getBookData ''b1'' (idb libraryState) = Inr (Some [37, 80, 68, 70])
   \<and> status (newBook ''b1'' 1000 (pdfFile ''dune.pdf'')) = Some Next
   \<and> distinct (map id_b (books libraryState))
   \<and> distinct (map id_b (books (step (OpenBook (newBook ''b1'' 1000 (pdfFile ''dune.pdf'')) None None)
                                   libraryState)))
   \<and> (newBook ''b1'' 1000 (pdfFile ''dune.pdf''))\<lparr>status := Some Reading\<rparr>
       \<in> set (books (step (OpenBook (newBook ''b1'' 1000 (pdfFile ''dune.pdf'')) None None)
                       libraryState))
   \<and> status ((newBook ''b1'' 1000 (pdfFile ''dune.pdf''))\<lparr>status := Some Reading\<rparr>)
       \<noteq> status (newBook ''b1'' 1000 (pdfFile ''dune.pdf''))
   \<and> map status (books (openBook (newBook ''b1'' 1000 (pdfFile ''dune.pdf'')) None None libraryState))
       = [Some Reading, Some Next]"
proof -
  let ?book = "newBook ''b1'' 1000 (pdfFile ''dune.pdf'')"
  let ?data = "[37, 80, 68, 70] :: ArrayBuffer"
  have h1: "?book \<in> set (books libraryState)" by (simp add: libraryState_eval)
  have h2: "getBookData (id_b ?book) (idb libraryState) = Inr (Some ?data)"
    by (simp add: libraryState_eval getBookData_def id_b_newBook)
  have h3: "status ?book = Some Next" by (simp add: newBook_defaults)
  have h4: "distinct (map id_b (books libraryState))"
    by (simp add: libraryState_eval id_b_newBook)
  note T = open_is_the_only_automatic_status_change
    [of ?book libraryState ?data None None "OpenBook ?book None None" ?book
        "?book\<lparr>status := Some Reading\<rparr>"]
  from T h1 h2 h3 have m: "books (openBook ?book None None libraryState)
      = map (\<lambda>x. if id_b x = id_b ?book then x\<lparr>status := Some Reading\<rparr> else x) (books libraryState)"
    and r: "?book\<lparr>status := Some Reading\<rparr> \<in> set (books (openBook ?book None None libraryState))"
    by blast+
  have h5: "distinct (map id_b (books (step (OpenBook ?book None None) libraryState)))"
    unfolding step.simps m by (simp add: libraryState_eval id_b_newBook)
  have e: "map status (books (openBook ?book None None libraryState)) = [Some Reading, Some Next]"
    unfolding m by (simp add: libraryState_eval newBook_defaults id_b_newBook)
  from h1 h2 h3 h4 h5 r e show ?thesis by (simp add: id_b_newBook)
qed

subsection \<open>Closing a book\<close>

lemma closeBook_writes_back:
  assumes "currentBook s = Some cb"
  shows "books (closeBook s) =
           map (\<lambda>b. if id_b b = id_b cb
                    then b\<lparr>currentPage := pageNumber s,
                           totalPages := (if numPages s > 0 then numPages s else totalPages b)\<rparr>
                    else b) (books s)"
    and "numPages (closeBook s) = numPages s"
  using assms by (simp_all add: closeBook_def)

lemma closeBook_keeps_positive:
  assumes "k < length (books s)" and "0 < totalPages (books s ! k)"
  shows "0 < totalPages (books (closeBook s) ! k)"
  using assms by (cases "currentBook s") (simp_all add: closeBook_def)

lemma openBook_keeps_numPages:
  "numPages (openBook book tp hl s) = numPages s"
  by (simp add: openBook_def Let_def showToast_def updateBookMetadata_def
           split: sum.splits option.splits)

text \<open>
  C10. The page count that \<open>closeBook\<close> writes is the cell \<open>numPages\<close>, which no
  handler resets when a book is opened or closed. A book with 250 pages is read and
  closed, a book with 100 pages is read and closed, and the first book is opened and
  closed again before its document has loaded: its stored page count, 250, is
  overwritten with 100, although the renderer reported nothing while it was open.
\<close>

theorem close_writes_stale_page_count:
  "map totalPages (books (run
     [OpenBook (newBook ''b2'' 1000 (pdfFile ''emma.pdf'')) None None,
      OnDocumentLoadSuccess 250,
      CloseBook,
      OpenBook (newBook ''b1'' 1000 (pdfFile ''dune.pdf'')) None None,
      OnDocumentLoadSuccess 100,
      CloseBook] libraryState)) = [100, 250]
   \<and> map totalPages (books (run
     [OpenBook (newBook ''b2'' 1000 (pdfFile ''emma.pdf'')) None None,
      OnDocumentLoadSuccess 250,
      CloseBook,
      OpenBook (newBook ''b1'' 1000 (pdfFile ''dune.pdf'')) None None,
      OnDocumentLoadSuccess 100,
      CloseBook,
      OpenBook ((newBook ''b2'' 1000 (pdfFile ''emma.pdf''))
                  \<lparr>status := Some Reading, totalPages := 250\<rparr>) None None,
      CloseBook] libraryState)) = [100, 100]"
  by code_simp

subsection \<open>The normalisation\<close>

lemma dropTrailing_append:
  "rev (dropWhile P (rev (a @ b))) =
     (if rev (dropWhile P (rev b)) = [] then rev (dropWhile P (rev a))
      else a @ rev (dropWhile P (rev b)))"
proof (cases "\<forall>x \<in> set (rev b). P x")
  case True
  then have dn: "dropWhile P (rev b) = []" by (simp only: dropWhile_eq_Nil_conv)
  from True have e: "dropWhile P (rev b @ rev a) = dropWhile P (rev a)"
    by (simp add: dropWhile_append)
  show ?thesis unfolding rev_append e dn by simp
next
  case False
  then have ne: "dropWhile P (rev b) \<noteq> []"
    by (simp only: dropWhile_eq_Nil_conv not_False_eq_True)
  from False have e: "dropWhile P (rev b @ rev a) = dropWhile P (rev b) @ rev a"
    by (auto simp: dropWhile_append)
  show ?thesis unfolding rev_append e using ne by (simp del: dropWhile_eq_Nil_conv)
qed

lemma dropTrailing_id:
  "\<forall>c \<in> set w. \<not> P c \<Longrightarrow> rev (dropWhile P (rev w)) = w"
proof -
  assume a: "\<forall>c \<in> set w. \<not> P c"
  then have "dropWhile P (rev w) = rev w"
    by (induction w rule: rev_induct) simp_all
  then show ?thesis by simp
qed

lemma replaceSpaces_word:
  "\<forall>c \<in> set w. \<not> isSpace c \<Longrightarrow> replaceSpaces (w @ r) = w @ replaceSpaces r"
  by (induction w) auto

lemma replaceSpaces_leading:
  "replaceSpaces str = [] \<or> isSpace (hd (replaceSpaces str)) = isSpace (hd str)"
  by (cases str) (auto simp: isSpace_def)

lemma replaceSpaces_Nil: "replaceSpaces str = [] \<longleftrightarrow> str = []"
  by (cases str) auto

lemma isSpace_32: "isSpace 32"
  by (simp add: isSpace_def)

lemma trim_replaceSpaces_leading:
  "trim (replaceSpaces str) = trim (replaceSpaces (dropWhile isSpace str))"
proof (cases str)
  case Nil
  then show ?thesis by simp
next
  case (Cons c cs)
  show ?thesis
  proof (cases "isSpace c")
    case False
    with Cons show ?thesis by simp
  next
    case True
    with Cons have "replaceSpaces str = 32 # replaceSpaces (dropWhile isSpace str)" by simp
    then show ?thesis by (simp add: trim_def trimWith_def isSpace_32)
  qed
qed

lemma wordsOf_words:
  "w \<in> set (wordsOf str) \<Longrightarrow> w \<noteq> [] \<and> (\<forall>c \<in> set w. \<not> isSpace c)"
proof (induction str rule: wordsOf.induct)
  case (1 str)
  show ?case
  proof (cases "dropWhile isSpace str")
    case Nil
    have "wordsOf str = []"
      by (subst wordsOf.simps) (simp only: Nil list.case)
    with "1.prems" show ?thesis by simp
  next
    case (Cons c cs)
    then have c: "\<not> isSpace c" using hd_dropWhile [of isSpace str] by auto
    have "wordsOf str = (c # takeWhile (\<lambda>x. \<not> isSpace x) cs)
        # wordsOf (dropWhile (\<lambda>x. \<not> isSpace x) cs)"
      by (subst wordsOf.simps) (simp only: Cons list.case)
    with "1.prems" have "w = c # takeWhile (\<lambda>x. \<not> isSpace x) cs
        \<or> w \<in> set (wordsOf (dropWhile (\<lambda>x. \<not> isSpace x) cs))"
      by simp
    then show ?thesis
    proof
      assume "w = c # takeWhile (\<lambda>x. \<not> isSpace x) cs"
      with c show ?thesis by (auto dest: set_takeWhileD)
    next
      assume "w \<in> set (wordsOf (dropWhile (\<lambda>x. \<not> isSpace x) cs))"
      from "1.IH" [OF Cons this] show ?thesis .
    qed
  qed
qed

lemma join_Nil_iff:
  "\<forall>w \<in> set ws. w \<noteq> [] \<Longrightarrow> join sep ws = [] \<longleftrightarrow> ws = []"
  by (induction sep ws rule: join.induct) auto

lemma join_Cons:
  "join sep (w # ws) = (if ws = [] then w else w @ sep @ join sep ws)"
  by (cases ws) auto

lemma trim_replaceSpaces_words:
  "trim (replaceSpaces str) = join [32] (wordsOf str)"
proof (induction str rule: wordsOf.induct)
  case (1 str)
  show ?case
  proof (cases "dropWhile isSpace str")
    case Nil
    have "trim (replaceSpaces str) = trim (replaceSpaces [])"
      unfolding trim_replaceSpaces_leading [of str] Nil ..
    then have "trim (replaceSpaces str) = []"
      by (simp add: trim_def trimWith_def)
    moreover have "wordsOf str = []"
      by (subst wordsOf.simps) (simp only: Nil list.case)
    ultimately show ?thesis by simp
  next
    case (Cons c cs)
    let ?w = "c # takeWhile (\<lambda>x. \<not> isSpace x) cs"
    let ?r = "dropWhile (\<lambda>x. \<not> isSpace x) cs"
    let ?R = "replaceSpaces ?r"
    from Cons have c: "\<not> isSpace c" using hd_dropWhile [of isSpace str] by auto
    then have w: "\<forall>x \<in> set ?w. \<not> isSpace x" by (auto dest: set_takeWhileD)
    have split: "c # cs = ?w @ ?r" by simp
    have ws: "wordsOf str = ?w # wordsOf ?r"
      by (subst wordsOf.simps) (simp only: Cons list.case)
    note IH = "1.IH" [OF Cons]
    have ne: "\<forall>v \<in> set (wordsOf ?r). v \<noteq> []" using wordsOf_words by blast
    have "trim (replaceSpaces str) = trim (replaceSpaces (c # cs))"
      unfolding trim_replaceSpaces_leading [of str] Cons ..
    also have "replaceSpaces (c # cs) = ?w @ ?R"
      unfolding split using replaceSpaces_word [OF w] by blast
    also have "trim (?w @ ?R) = rev (dropWhile isSpace (rev (?w @ ?R)))"
      using c by (simp add: trim_def trimWith_def)
    finally have t0: "trim (replaceSpaces str) = rev (dropWhile isSpace (rev (?w @ ?R)))" .
    have da: "rev (dropWhile isSpace (rev (?w @ ?R))) =
        (if rev (dropWhile isSpace (rev ?R)) = [] then rev (dropWhile isSpace (rev ?w))
         else ?w @ rev (dropWhile isSpace (rev ?R)))"
      by (rule dropTrailing_append)
    have di: "rev (dropWhile isSpace (rev ?w)) = ?w"
      by (rule dropTrailing_id [OF w])
    have t: "trim (replaceSpaces str) =
        (if rev (dropWhile isSpace (rev ?R)) = [] then ?w
         else ?w @ rev (dropWhile isSpace (rev ?R)))"
      unfolding t0 da di ..
    show ?thesis
    proof (cases ?r)
      case Nil
      then have "wordsOf ?r = []"
        by (subst wordsOf.simps) (simp only: dropWhile.simps list.case)
      moreover have "?R = []" by (simp only: Nil replaceSpaces.simps)
      ultimately show ?thesis unfolding t ws by simp
    next
      case (Cons d ds)
      then have d: "isSpace d" using hd_dropWhile [of "\<lambda>x. \<not> isSpace x" cs] by auto
      let ?Q = "replaceSpaces (dropWhile isSpace ds)"
      from Cons d have R: "?R = 32 # ?Q" by simp
      have lead: "dropWhile isSpace ?Q = ?Q"
      proof (cases "dropWhile isSpace ds")
        case Nil
        show ?thesis by (simp only: Nil replaceSpaces.simps dropWhile.simps)
      next
        case (Cons e es)
        then have e: "\<not> isSpace e" using hd_dropWhile [of isSpace ds] by auto
        then have "dropWhile isSpace (replaceSpaces (e # es)) = replaceSpaces (e # es)"
          by simp
        then show ?thesis by (simp only: Cons)
      qed
      have trimR: "trim ?R = rev (dropWhile isSpace (rev ?Q))"
        unfolding R by (simp add: trim_def trimWith_def isSpace_32 lead)
      have tail: "rev (dropWhile isSpace (rev ?R)) =
          (if rev (dropWhile isSpace (rev ?Q)) = [] then [] else 32 # rev (dropWhile isSpace (rev ?Q)))"
        unfolding R using dropTrailing_append [of isSpace "[32]" ?Q] by (simp add: isSpace_32)
      show ?thesis
      proof (cases "wordsOf ?r = []")
        case True
        have z: "rev (dropWhile isSpace (rev ?Q)) = []"
          unfolding trimR [symmetric] IH True by simp
        have tr: "rev (dropWhile isSpace (rev ?R)) = []"
          unfolding tail z by simp
        show ?thesis unfolding t tr ws True by simp
      next
        case False
        have e: "rev (dropWhile isSpace (rev ?Q)) = join [32] (wordsOf ?r)"
          unfolding trimR [symmetric] IH ..
        have jn: "join [32] (wordsOf ?r) \<noteq> []"
          using join_Nil_iff [OF ne, of "[32]"] False by blast
        have tr: "rev (dropWhile isSpace (rev ?R)) = 32 # join [32] (wordsOf ?r)"
          unfolding tail e using jn by simp
        show ?thesis unfolding t tr ws using False by (simp add: join_Cons)
      qed
    qed
  qed
qed

lemma normalize_str_words:
  "normalize_str toLowerCase str = collapsedTrimmedFolded toLowerCase str"
  by (simp add: normalize_str_def collapsedTrimmedFolded_def trim_replaceSpaces_words)

subsection \<open>The relocation pass\<close>

lemma markSpans_fst:
  "fst (markSpans toLowerCase target spans found) =
     map (\<lambda>span. if marksToken target (normalize_str toLowerCase (textContent span))
                  then classList_add ''temporary-highlight'' span else span) spans"
  by (induction spans arbitrary: found) (simp_all add: Let_def split_beta)

lemma markSpans_snd:
  "snd (markSpans toLowerCase target spans found) \<longleftrightarrow>
     found \<or> (\<exists>span \<in> set spans.
                 marksToken target (normalize_str toLowerCase (textContent span)))"
  by (induction spans arbitrary: found) (auto simp: Let_def split_beta)

lemma classList_add_mem:
  "t \<in> set (classList (classList_add token span)) \<longleftrightarrow> t = token \<or> t \<in> set (classList span)"
  by (auto simp: classList_add_def)

lemma marksToken_empty_target: "\<not> marksToken [] text"
  by (auto simp: marksToken_def dest: str_includes_length)

lemma marksToken_short: "length text \<le> 3 \<Longrightarrow> \<not> marksToken target text"
  by (auto simp: marksToken_def dest: str_includes_length)

lemma temporaryHighlightEffect_fst:
  assumes "h \<noteq> [] \<or> toLowerCase [] = []"
  shows "fst (temporaryHighlightEffect toLowerCase (Some h) READER spans) =
     map (\<lambda>span. if marksToken (normalize_str toLowerCase h)
                        (normalize_str toLowerCase (textContent span))
                  then classList_add ''temporary-highlight'' span else span) spans"
proof (cases "h = []")
  case True
  with assms have "normalize_str toLowerCase h = []"
    by (simp add: normalize_str_def trim_def trimWith_def)
  with True show ?thesis
    by (simp add: temporaryHighlightEffect_def marksToken_empty_target)
next
  case False
  then show ?thesis
    by (simp add: temporaryHighlightEffect_def markSpans_fst)
qed

text \<open>
  C7. For every target text and every span of the page, the relocation pass marks
  the span (adds the class \<open>temporary-highlight\<close>) if and only if, on the texts with
  their whitespace runs collapsed to a single space, trimmed and case-folded, the
  span's text is longer than 3 and occurs in the target, or the target is longer than
  3 and occurs in the span's text. A span whose normalised text has at most 3 code
  units is left as it was. The normalised texts are stated by \<open>collapsedTrimmedFolded\<close>,
  which the source's \<open>normalize\<close> computes (\<open>normalize_str_words\<close>). The empty
  highlight is falsy; for it the statement needs that the host's \<open>toLowerCase\<close> keeps the
  empty string empty.
\<close>

theorem relocation_marks_iff:
  assumes "k < length spans" and "h \<noteq> [] \<or> toLowerCase [] = []"
  shows "let target = collapsedTrimmedFolded toLowerCase h;
             text = collapsedTrimmedFolded toLowerCase (textContent (spans ! k));
             spans' = fst (temporaryHighlightEffect toLowerCase (Some h) READER spans)
         in length spans' = length spans
          \<and> textContent (spans' ! k) = textContent (spans ! k)
          \<and> (''temporary-highlight'' \<in> set (classList (spans' ! k)) \<longleftrightarrow>
               ''temporary-highlight'' \<in> set (classList (spans ! k))
               \<or> (3 < length text \<and> (\<exists>xs ys. target = xs @ text @ ys))
               \<or> (3 < length target \<and> (\<exists>xs ys. text = xs @ target @ ys)))
          \<and> (length text \<le> 3 \<longrightarrow> spans' ! k = spans ! k)"
proof -
  have marked: "fst (temporaryHighlightEffect toLowerCase (Some h) READER spans) =
     map (\<lambda>span. if marksToken (normalize_str toLowerCase h)
                        (normalize_str toLowerCase (textContent span))
                  then classList_add ''temporary-highlight'' span else span) spans"
    using assms(2) by (rule temporaryHighlightEffect_fst)
  show ?thesis
    using assms(1)
    unfolding normalize_str_words [symmetric]
    by (simp add: Let_def marked classList_add_mem marksToken_short)
       (auto simp: marksToken_def str_includes_iff classList_add_def)
qed

theorem relocation_marks_iff_witness:
  "(0::nat) < length [\<lparr>textContent = [32] @ units ''ELEPHANT'' @ [9, 10] @ units ''Sat'' @ [160],
                        classList = []\<rparr>,
                      \<lparr>textContent = units '' the '', classList = []\<rparr>]
   \<and> [32, 8195] @ units ''The'' @ [9, 12288, 10] @ units ''Elephant'' @ [160] @ units ''sat''
       @ [65279] \<noteq> []
   \<and> ''temporary-highlight'' \<in> set (classList
        (fst (temporaryHighlightEffect sampleToLowerCase
               (Some ([32, 8195] @ units ''The'' @ [9, 12288, 10] @ units ''Elephant'' @ [160]
                      @ units ''sat'' @ [65279])) READER
               [\<lparr>textContent = [32] @ units ''ELEPHANT'' @ [9, 10] @ units ''Sat'' @ [160],
                  classList = []\<rparr>,
                \<lparr>textContent = units '' the '', classList = []\<rparr>]) ! 0))"
proof -
  let ?h = "[32, 8195] @ units ''The'' @ [9, 12288, 10] @ units ''Elephant'' @ [160]
            @ units ''sat'' @ [65279]"
  let ?spans = "[\<lparr>textContent = [32] @ units ''ELEPHANT'' @ [9, 10] @ units ''Sat'' @ [160],
                   classList = []\<rparr>,
                 \<lparr>textContent = units '' the '', classList = []\<rparr>]"
  have k: "(0::nat) < length ?spans" by simp
  have h: "?h \<noteq> [] \<or> sampleToLowerCase [] = []" by simp
  have t: "collapsedTrimmedFolded sampleToLowerCase ?h = units ''the elephant sat''"
    by code_simp
  have x: "collapsedTrimmedFolded sampleToLowerCase
             ([32] @ units ''ELEPHANT'' @ [9, 10] @ units ''Sat'' @ [160]) = units ''elephant sat''"
    by code_simp
  have "units ''the elephant sat'' = units ''the '' @ units ''elephant sat'' @ []"
    by (simp add: units_def)
  then have occ: "\<exists>xs ys. units ''the elephant sat'' = xs @ units ''elephant sat'' @ ys"
    by blast
  have len: "3 < length (units ''elephant sat'')" by (simp add: units_def)
  from relocation_marks_iff [where k = 0 and spans = "?spans" and h = "?h"
      and toLowerCase = sampleToLowerCase, OF k h] t x occ len
  have "''temporary-highlight'' \<in> set (classList
        (fst (temporaryHighlightEffect sampleToLowerCase (Some ?h) READER ?spans) ! 0))"
    by (simp add: Let_def)
  with k show ?thesis by simp
qed

subsection \<open>The snippet\<close>

lemma createSnippet_window:
  assumes "indexOf (toLowerCase text) (toLowerCase q) = int n"
    and "n + length q \<le> length text"
  shows "createSnippet toLowerCase text q =
           units ''...'' @ take (min (length text) (n + length q + 30) - (n - 30)) (drop (n - 30) text) @ units ''...''"
proof -
  have s: "max 0 (int n - 30) = int (n - 30)" by simp
  have e: "min (int (length text)) (int n + int (length q) + 30)
             = int (min (length text) (n + length q + 30))" by simp
  have "n - 30 \<le> min (length text) (n + length q + 30)" using assms(2) by arith
  then have "substring text (int (n - 30)) (int (min (length text) (n + length q + 30)))
      = take (min (length text) (n + length q + 30) - (n - 30)) (drop (n - 30) text)"
    by (intro substring_take_drop) simp_all
  then show ?thesis
    unfolding createSnippet_def Let_def assms(1) s e by simp
qed

subsection \<open>The search loop\<close>

lemma searchLoop_results:
  "searchLoop toLowerCase q ps i acc = Inr results \<Longrightarrow> r \<in> set results \<Longrightarrow>
   r \<in> set acc \<or>
   (\<exists>k<length ps. \<exists>items. page r = i + int k \<and> ps ! k = Inr items
      \<and> str_includes (toLowerCase (join [32] items)) (toLowerCase q)
      \<and> text_r r = createSnippet toLowerCase (join [32] items) q)"
proof (induction ps arbitrary: i acc)
  case Nil
  then show ?case by simp
next
  case (Cons p ps)
  show ?case
  proof (cases p)
    case (Inl e)
    with Cons.prems show ?thesis by simp
  next
    case (Inr items)
    let ?hit = "str_includes (toLowerCase (join [32] items)) (toLowerCase q)"
    let ?new = "\<lparr>page = i, text_r = createSnippet toLowerCase (join [32] items) q\<rparr>"
    show ?thesis
    proof (cases ?hit)
      case False
      with Cons.prems Inr have "searchLoop toLowerCase q ps (i + 1) acc = Inr results" by simp
      from Cons.IH [OF this Cons.prems(2)] show ?thesis
      proof
        assume "r \<in> set acc" then show ?thesis ..
      next
        assume "\<exists>k<length ps. \<exists>items. page r = i + 1 + int k \<and> ps ! k = Inr items
          \<and> str_includes (toLowerCase (join [32] items)) (toLowerCase q)
          \<and> text_r r = createSnippet toLowerCase (join [32] items) q"
        then obtain k its where "k < length ps" "page r = i + 1 + int k" "ps ! k = Inr its"
          "str_includes (toLowerCase (join [32] its)) (toLowerCase q)"
          "text_r r = createSnippet toLowerCase (join [32] its) q" by blast
        then have "Suc k < length (p # ps) \<and> page r = i + int (Suc k) \<and> (p # ps) ! Suc k = Inr its
          \<and> str_includes (toLowerCase (join [32] its)) (toLowerCase q)
          \<and> text_r r = createSnippet toLowerCase (join [32] its) q" by simp
        then show ?thesis by blast
      qed
    next
      case True
      have here: "0 < length (p # ps) \<and> page ?new = i + int 0 \<and> (p # ps) ! 0 = Inr items
          \<and> ?hit \<and> text_r ?new = createSnippet toLowerCase (join [32] items) q"
        using True Inr by simp
      show ?thesis
      proof (cases "length (acc @ [?new]) > 50")
        case True
        with Cons.prems Inr \<open>?hit\<close> have "results = acc @ [?new]" by (simp add: Let_def)
        with Cons.prems(2) have "r \<in> set acc \<or> r = ?new" by auto
        with here show ?thesis by blast
      next
        case False
        with Cons.prems Inr \<open>?hit\<close> have "searchLoop toLowerCase q ps (i + 1) (acc @ [?new]) = Inr results"
          by (simp add: Let_def)
        from Cons.IH [OF this Cons.prems(2)] show ?thesis
        proof
          assume "r \<in> set (acc @ [?new])"
          then have "r \<in> set acc \<or> r = ?new" by auto
          with here show ?thesis by blast
        next
          assume "\<exists>k<length ps. \<exists>items. page r = i + 1 + int k \<and> ps ! k = Inr items
            \<and> str_includes (toLowerCase (join [32] items)) (toLowerCase q)
            \<and> text_r r = createSnippet toLowerCase (join [32] items) q"
          then obtain k its where "k < length ps" "page r = i + 1 + int k" "ps ! k = Inr its"
            "str_includes (toLowerCase (join [32] its)) (toLowerCase q)"
            "text_r r = createSnippet toLowerCase (join [32] its) q" by blast
          then have "Suc k < length (p # ps) \<and> page r = i + int (Suc k) \<and> (p # ps) ! Suc k = Inr its
            \<and> str_includes (toLowerCase (join [32] its)) (toLowerCase q)
            \<and> text_r r = createSnippet toLowerCase (join [32] its) q" by simp
          then show ?thesis by blast
        qed
      qed
    qed
  qed
qed

lemma searchLoop_length:
  "searchLoop toLowerCase q ps i acc = Inr results \<Longrightarrow> length acc \<le> 50 \<Longrightarrow> length results \<le> 51"
proof (induction ps arbitrary: i acc)
  case Nil
  then show ?case by simp
next
  case (Cons p ps)
  then show ?case
    by (cases p) (auto simp: Let_def split: if_splits)
qed

lemma searchLoop_ascending:
  "searchLoop toLowerCase q ps i acc = Inr results \<Longrightarrow> sorted_wrt (<) (map page acc) \<Longrightarrow>
   \<forall>r \<in> set acc. page r < i \<Longrightarrow> sorted_wrt (<) (map page results)"
proof (induction ps arbitrary: i acc)
  case Nil
  then show ?case by simp
next
  case (Cons p ps)
  show ?case
  proof (cases p)
    case (Inl e)
    with Cons.prems show ?thesis by simp
  next
    case (Inr items)
    let ?new = "\<lparr>page = i, text_r = createSnippet toLowerCase (join [32] items) q\<rparr>"
    have a: "sorted_wrt (<) (map page (acc @ [?new]))"
      using Cons.prems(2,3) by (auto simp: sorted_wrt_append)
    have b: "\<forall>r \<in> set (acc @ [?new]). page r < i + 1"
      using Cons.prems(3) by auto
    have c: "\<forall>r \<in> set acc. page r < i + 1"
      using Cons.prems(3) by auto
    from Cons.prems(1) Inr show ?thesis
      using Cons.IH [OF _ a b] Cons.IH [OF _ Cons.prems(2) c] a
      by (auto simp: Let_def split: if_splits)
  qed
qed

lemma searchLoop_keeps:
  "searchLoop toLowerCase q ps i acc = Inr results \<Longrightarrow> set acc \<subseteq> set results"
proof (induction ps arbitrary: i acc)
  case Nil
  then show ?case by simp
next
  case (Cons p ps)
  show ?case
  proof (cases p)
    case (Inl e)
    with Cons.prems show ?thesis by simp
  next
    case (Inr items)
    let ?new = "\<lparr>page = i, text_r = createSnippet toLowerCase (join [32] items) q\<rparr>"
    from Cons.prems Inr show ?thesis
      using Cons.IH [of "i + 1" "acc @ [?new]"] Cons.IH [of "i + 1" acc]
      by (auto simp: Let_def split: if_splits)
  qed
qed

lemma searchLoop_complete:
  "searchLoop toLowerCase q ps i acc = Inr results \<Longrightarrow> length results \<le> 50 \<Longrightarrow>
   k < length ps \<Longrightarrow> ps ! k = Inr items \<Longrightarrow>
   str_includes (toLowerCase (join [32] items)) (toLowerCase q) \<Longrightarrow>
   \<lparr>page = i + int k, text_r = createSnippet toLowerCase (join [32] items) q\<rparr> \<in> set results"
proof (induction ps arbitrary: i acc k)
  case Nil
  then show ?case by simp
next
  case (Cons p ps)
  show ?case
  proof (cases p)
    case (Inl e)
    with Cons.prems show ?thesis by simp
  next
    case (Inr its)
    let ?hit = "str_includes (toLowerCase (join [32] its)) (toLowerCase q)"
    let ?new = "\<lparr>page = i, text_r = createSnippet toLowerCase (join [32] its) q\<rparr>"
    let ?acc = "if ?hit then acc @ [?new] else acc"
    have stop: "\<not> (?hit \<and> length (acc @ [?new]) > 50)"
    proof
      assume h: "?hit \<and> length (acc @ [?new]) > 50"
      with Cons.prems(1) Inr have "results = acc @ [?new]" by (simp add: Let_def)
      with h Cons.prems(2) show False by simp
    qed
    with Cons.prems(1) Inr have rec: "searchLoop toLowerCase q ps (i + 1) ?acc = Inr results"
      by (auto simp: Let_def split: if_splits)
    show ?thesis
    proof (cases k)
      case 0
      with Cons.prems(4,5) Inr have "its = items" "?hit" by simp_all
      then have "?new \<in> set ?acc" by simp
      with searchLoop_keeps [OF rec] \<open>its = items\<close> 0 show ?thesis by auto
    next
      case (Suc k')
      with Cons.prems have "k' < length ps" "ps ! k' = Inr items" by simp_all
      from Cons.IH [OF rec Cons.prems(2) this Cons.prems(5)] Suc show ?thesis
        by (simp add: add.assoc)
    qed
  qed
qed


lemma handleSearch_results:
  assumes "currentBookData s = Some data" and "trim (searchQuery s) \<noteq> []"
    and "getDocument data = Inr pdf"
  shows "searchResults (handleSearch toLowerCase getDocument s) =
           (case searchLoop toLowerCase (searchQuery s) pdf 1 [] of
              Inl e \<Rightarrow> [] | Inr results \<Rightarrow> results)"
  using assms by (simp add: handleSearch_def Let_def showToast_def split: sum.splits)

text \<open>
  Where the lowering keeps the length of the page text and of the query, the snippet of
  every result is the window around the first match: the ellipsis marker, the page text
  from \<open>max(0, n - 30)\<close> to \<open>min(length, n + queryLength + 30)\<close>, and the marker again.
\<close>

lemma snippet_window_if_lengths_kept:
  assumes "currentBookData s = Some data" and "trim (searchQuery s) \<noteq> []"
    and "getDocument data = Inr pdf"
    and "r \<in> set (searchResults (handleSearch toLowerCase getDocument s))"
    and lenq: "length (toLowerCase (searchQuery s)) = length (searchQuery s)"
    and lent: "\<And>k items. k < length pdf \<Longrightarrow> pdf ! k = Inr items \<Longrightarrow>
                 length (toLowerCase (join [32] items)) = length (join [32] items)"
  shows "\<exists>items n. 1 \<le> page r \<and> page r \<le> int (length pdf)
           \<and> pdf ! (nat (page r) - 1) = Inr items
           \<and> (let q = searchQuery s;
                   text = join [32] items;
                   lowerText = toLowerCase text;
                   lowerQuery = toLowerCase q;
                   start = n - 30;
                   stop = min (length text) (n + length q + 30)
               in str_includes lowerText lowerQuery
                \<and> indexOf lowerText lowerQuery = int n
                \<and> take (length q) (drop n lowerText) = lowerQuery
                \<and> (\<forall>j<n. take (length q) (drop j lowerText) \<noteq> lowerQuery)
                \<and> text_r r = units ''...'' @ take (stop - start) (drop start text) @ units ''...''
                \<and> length (text_r r) = 3 + (stop - start) + 3
                \<and> (30 \<le> n \<and> n + length q + 30 \<le> length text \<longrightarrow>
                     take 30 (drop 3 (text_r r)) = take 30 (drop (n - 30) text)
                     \<and> length (text_r r) = 3 + (30 + length q + 30) + 3))"
proof -
  let ?q = "searchQuery s"
  have u: "length (units ''...'') = 3" by (simp add: units_def)
  have "r \<in> set (case searchLoop toLowerCase ?q pdf 1 [] of Inl e \<Rightarrow> [] | Inr results \<Rightarrow> results)"
    using assms(4) handleSearch_results [of s data getDocument pdf toLowerCase, OF assms(1-3)]
    by simp
  then obtain results where
    loop: "searchLoop toLowerCase ?q pdf 1 [] = Inr results" and r: "r \<in> set results"
    by (cases "searchLoop toLowerCase ?q pdf 1 []") simp_all
  from searchLoop_results [OF loop r] obtain k items where
    k: "k < length pdf" "page r = 1 + int k" "pdf ! k = Inr items"
    and hit: "str_includes (toLowerCase (join [32] items)) (toLowerCase ?q)"
    and snip: "text_r r = createSnippet toLowerCase (join [32] items) ?q"
    by auto
  let ?text = "join [32] items"
  have lt: "length (toLowerCase ?text) = length ?text"
    using k(1,3) by (rule lent)
  from indexOf_first [OF hit] obtain n where
    n: "indexOf (toLowerCase ?text) (toLowerCase ?q) = int n"
       "n + length (toLowerCase ?q) \<le> length (toLowerCase ?text)"
       "take (length (toLowerCase ?q)) (drop n (toLowerCase ?text)) = toLowerCase ?q"
       "\<forall>j<n. take (length (toLowerCase ?q)) (drop j (toLowerCase ?text)) \<noteq> toLowerCase ?q"
    by blast
  have fits: "n + length ?q \<le> length ?text"
    using n(2) by (simp add: lt lenq)
  have win: "text_r r = units ''...'' @ take (min (length ?text) (n + length ?q + 30) - (n - 30))
                                   (drop (n - 30) ?text) @ units ''...''"
    using createSnippet_window [OF n(1) fits] snip by simp
  have len: "length (text_r r) = 3 + (min (length ?text) (n + length ?q + 30) - (n - 30)) + 3"
  proof -
    have "min (length ?text) (n + length ?q + 30) - (n - 30) \<le> length ?text - (n - 30)"
      by arith
    then show ?thesis unfolding win by (simp add: u)
  qed
  have inb: "take 30 (drop 3 (text_r r)) = take 30 (drop (n - 30) ?text)
             \<and> length (text_r r) = 3 + (30 + length ?q + 30) + 3"
    if "30 \<le> n" "n + length ?q + 30 \<le> length ?text"
  proof -
    from that have m: "min (length ?text) (n + length ?q + 30) - (n - 30) = 30 + length ?q + 30"
      by simp
    have "drop 3 (text_r r) = take (30 + length ?q + 30) (drop (n - 30) ?text) @ units ''...''"
      unfolding win m by (simp add: u)
    moreover have "30 \<le> length (take (30 + length ?q + 30) (drop (n - 30) ?text))"
      using that by simp
    ultimately have "take 30 (drop 3 (text_r r)) = take 30 (drop (n - 30) ?text)"
      by (simp add: min_def)
    with len m show ?thesis by simp
  qed
  have pg: "1 \<le> page r \<and> page r \<le> int (length pdf) \<and> pdf ! (nat (page r) - 1) = Inr items"
    using k by (simp add: nat_add_distrib)
  show ?thesis
    apply (rule exI [of _ items], rule exI [of _ n])
    using pg hit n(1,3,4) win len inb
    by (simp add: Let_def lenq)
qed

text \<open>
  Every page whose lowered text contains the lowered query has its result, unless the
  search stopped at the cap.
\<close>

lemma handleSearch_complete:
  assumes "currentBookData s = Some data" and "trim (searchQuery s) \<noteq> []"
    and "getDocument data = Inr pdf"
    and "searchLoop toLowerCase (searchQuery s) pdf 1 [] = Inr results"
    and "length results \<le> 50"
    and "k < length pdf" and "pdf ! k = Inr items"
    and "str_includes (toLowerCase (join [32] items)) (toLowerCase (searchQuery s))"
  shows "\<lparr>page = 1 + int k, text_r = createSnippet toLowerCase (join [32] items) (searchQuery s)\<rparr>
           \<in> set (searchResults (handleSearch toLowerCase getDocument s))"
  using handleSearch_results [of s data getDocument pdf toLowerCase, OF assms(1-3)]
    searchLoop_complete [OF assms(4-8)] assms(4)
  by simp

lemma handleSearch_bounded:
  assumes "currentBookData s = Some data" and "trim (searchQuery s) \<noteq> []"
    and "getDocument data = Inr pdf"
  shows "length (searchResults (handleSearch toLowerCase getDocument s)) \<le> 51
       \<and> sorted_wrt (<) (map page (searchResults (handleSearch toLowerCase getDocument s)))"
proof (cases "searchLoop toLowerCase (searchQuery s) pdf 1 []")
  case (Inl e)
  with handleSearch_results [of s data getDocument pdf toLowerCase, OF assms] show ?thesis by simp
next
  case (Inr results)
  with handleSearch_results [of s data getDocument pdf toLowerCase, OF assms]
  have "searchResults (handleSearch toLowerCase getDocument s) = results" by simp
  with searchLoop_length [OF Inr] searchLoop_ascending [OF Inr] show ?thesis by simp
qed

text \<open>
  C1. The search of a document of 51 pages that all contain the query returns 51
  results: the loop tests \<open>results.length > 50\<close> after the push, so the cap of 50 is
  passed by one. (The results are ascending by page, one for each page, and never
  more than 51: \<open>handleSearch_bounded\<close>.)
\<close>

theorem search_returns_51_results:
  "length (searchResults
     (handleSearch sampleToLowerCase (\<lambda>d. Inr (replicate 51 (Inr [units ''a''])))
        (initialState\<lparr>currentBookData := Some [], searchQuery := units ''a''\<rparr>))) = 51"
  by code_simp

text \<open>
  C8. The snippet window is cut from the page text at the index that the match has in
  the lowered text. The page text here is 40 times U+0130 (capital I with dot above,
  which lowers to two code units) and a sentence; the query \<open>ocean\<close> is at position 50 of
  the page text and at position 90 of the lowered text, and 30 characters are in bounds
  on both sides of either position. The search returns for the page the snippet
  \<open>...the deep sea beyond the far hills of home where the rivers run on...\<close>, which is
  the page text from 60 to 125: it does not contain the query, and its body does not
  start with the 30 characters before the match, which are the page text from 20 to 50.
\<close>

theorem search_snippet_misses_the_match:
  "let text = replicate 40 304
         @ units ''cross the ocean and the deep sea beyond the far hills of home where the rivers run on to the quiet shore'';
       q = units ''ocean'';
       s' = handleSearch sampleToLowerCase (\<lambda>d. Inr [Inr [text]])
              (initialState\<lparr>currentBookData := Some [], searchQuery := q\<rparr>);
       snippet = units ''...the deep sea beyond the far hills of home where the rivers run on...''
   in str_includes (sampleToLowerCase text) (sampleToLowerCase q)
    \<and> searchResults s' = [\<lparr>page = 1, text_r = snippet\<rparr>]
    \<and> length text = 144
    \<and> indexOf (sampleToLowerCase text) (sampleToLowerCase q) = 90
    \<and> indexOf text q = 50
    \<and> take (length q) (drop 50 text) = q
    \<and> snippet = units ''...'' @ take 65 (drop 60 text) @ units ''...''
    \<and> \<not> str_includes snippet q
    \<and> take 30 (drop 3 snippet) = units ''the deep sea beyond the far hi''
    \<and> take 30 (drop 20 text) = replicate 20 304 @ units ''cross the ''"
  by code_simp

subsection \<open>Deleting a selection\<close>











subsection \<open>Uploading files\<close>








lemma find_Some_mem: "find P xs = Some x \<Longrightarrow> x \<in> set xs"
  by (induction xs) (auto split: if_splits)






subsection \<open>Sorting and grouping\<close>

lemma mset_insertSorted: "mset (insertSorted cmp x xs) = add_mset x (mset xs)"
  by (induction xs) auto

lemma mset_stableSort: "mset (stableSort cmp xs) = mset xs"
  by (induction xs) (auto simp: mset_insertSorted)

lemma mset_sortBooks: "mset (sortBooks lc sm bs) = mset bs"
  by (simp add: sortBooks_def mset_stableSort)

lemma updateGroup_keys: "map fst (updateGroup key book groups) = map fst groups"
  by (induction groups) auto

lemma updateGroup_mset:
  "map_of groups key = Some bs \<Longrightarrow>
   mset (concat (map snd (updateGroup key book groups)))
     = add_mset book (mset (concat (map snd groups)))"
  by (induction groups) (auto split: if_splits)

lemma updateGroup_entries:
  "(k, g) \<in> set (updateGroup key book groups) \<Longrightarrow>
   (k, g) \<in> set groups \<or> (k = key \<and> (\<exists>g0. (k, g0) \<in> set groups \<and> g = g0 @ [book]))"
  by (induction groups) (auto split: if_splits)

lemma updateGroup_members:
  assumes "(k, g) \<in> set (updateGroup key book groups)" and "b \<in> set g"
  shows "(\<exists>g'. (k, g') \<in> set groups \<and> b \<in> set g') \<or> (k = key \<and> b = book)"
proof -
  from updateGroup_entries [OF assms(1)] show ?thesis
  proof
    assume "(k, g) \<in> set groups"
    with assms(2) show ?thesis by blast
  next
    assume "k = key \<and> (\<exists>g0. (k, g0) \<in> set groups \<and> g = g0 @ [book])"
    then obtain g0 where "k = key" "(k, g0) \<in> set groups" "g = g0 @ [book]" by blast
    with assms(2) show ?thesis by auto
  qed
qed

lemma groupLoop_partition:
  "groupLoop keyOf bs groups = Inr groups' \<Longrightarrow> distinct (map fst groups) \<Longrightarrow>
   mset (concat (map snd groups')) = mset (concat (map snd groups)) + mset bs
   \<and> distinct (map fst groups')"
proof (induction bs arbitrary: groups)
  case Nil
  then show ?case by simp
next
  case (Cons book rest)
  show ?case
  proof (cases "map_of groups (keyOf book)")
    case (Some g)
    with Cons.prems(1) have "groupLoop keyOf rest (updateGroup (keyOf book) book groups) = Inr groups'"
      by (simp add: Let_def)
    from Cons.IH [OF this] Cons.prems(2) updateGroup_mset [OF Some] show ?thesis
      by (simp add: updateGroup_keys)
  next
    case None
    with Cons.prems(1) have "groupLoop keyOf rest (groups @ [(keyOf book, [book])]) = Inr groups'"
      by (simp add: Let_def split: if_splits)
    moreover from None have "keyOf book \<notin> set (map fst groups)"
      by (simp add: map_of_eq_None_iff)
    ultimately show ?thesis
      using Cons.IH [of "groups @ [(keyOf book, [book])]"] Cons.prems(2) by simp
  qed
qed

lemma groupLoop_keys:
  "groupLoop keyOf bs groups = Inr groups' \<Longrightarrow>
   \<forall>(k, g) \<in> set groups. \<forall>b \<in> set g. keyOf b = k \<Longrightarrow>
   \<forall>(k, g) \<in> set groups'. \<forall>b \<in> set g. keyOf b = k"
proof (induction bs arbitrary: groups)
  case Nil
  then show ?case by simp
next
  case (Cons book rest)
  show ?case
  proof (cases "map_of groups (keyOf book)")
    case (Some g)
    with Cons.prems(1) have l: "groupLoop keyOf rest (updateGroup (keyOf book) book groups) = Inr groups'"
      by (simp add: Let_def)
    have "\<forall>(k, g) \<in> set (updateGroup (keyOf book) book groups). \<forall>b \<in> set g. keyOf b = k"
    proof (intro ballI, clarify)
      fix k g b assume "(k, g) \<in> set (updateGroup (keyOf book) book groups)" "b \<in> set g"
      from updateGroup_members [OF this] Cons.prems(2) show "keyOf b = k" by auto
    qed
    from Cons.IH [OF l this] show ?thesis .
  next
    case None
    with Cons.prems(1) have l: "groupLoop keyOf rest (groups @ [(keyOf book, [book])]) = Inr groups'"
      by (simp add: Let_def split: if_splits)
    have "\<forall>(k, g) \<in> set (groups @ [(keyOf book, [book])]). \<forall>b \<in> set g. keyOf b = k"
      using Cons.prems(2) by auto
    from Cons.IH [OF l this] show ?thesis .
  qed
qed

lemma groupLoop_succeeds:
  "\<forall>b \<in> set bs. keyOf b \<notin> set objectPrototypeKeys \<Longrightarrow> \<exists>groups'. groupLoop keyOf bs groups = Inr groups'"
proof (induction bs arbitrary: groups)
  case Nil
  then show ?case by simp
next
  case (Cons book rest)
  then show ?case
    by (cases "map_of groups (keyOf book)") (simp_all add: Let_def)
qed

lemma mset_insertEntry: "mset (insertEntry e xs) = add_mset e (mset xs)"
  by (induction xs) auto

lemma mset_foldr_insertEntry: "mset (foldr insertEntry xs []) = mset xs"
  by (induction xs) (auto simp: mset_insertEntry)

text \<open>\<open>Object.entries\<close> lists every own property once.\<close>

lemma mset_objectEntries: "mset (objectEntries props) = mset props"
  by (simp add: objectEntries_def mset_foldr_insertEntry)

lemma objectEntries_order_example:
  "objectEntries [(''Romance'', 1 :: nat), (''10'', 2), (''2'', 3), (''007'', 4)]
     = [(''2'', 3), (''10'', 2), (''Romance'', 1), (''007'', 4)]"
  by code_simp

lemma mset_concat_snd:
  "mset (concat (map snd xs)) = sum_mset (image_mset (\<lambda>e. mset (snd e)) (mset xs))"
  by (induction xs) auto

lemma objectEntries_books:
  "mset (concat (map snd (objectEntries groups))) = mset (concat (map snd groups))"
  by (simp add: mset_concat_snd mset_objectEntries)

lemma objectEntries_set: "set (objectEntries groups) = set groups"
  using mset_objectEntries [of groups] by (rule mset_eq_setD)

lemma objectEntries_distinct:
  "distinct (map fst (objectEntries groups)) \<longleftrightarrow> distinct (map fst groups)"
proof -
  have "mset (map fst (objectEntries groups)) = mset (map fst groups)"
    unfolding mset_map mset_objectEntries ..
  then show ?thesis by (rule mset_eq_imp_distinct_iff)
qed

lemma grouping_partitions:
  assumes "groupedBooks lc sm gm cats bs = Inr groups"
  shows "mset (concat (map snd groups)) = mset bs"
    and "length (concat (map snd groups)) = length bs"
    and "distinct (map fst groups)"
    and "gm = GroupNone \<Longrightarrow> groups = [(''Todos'', sortBooks lc sm bs)]"
    and "gm \<noteq> GroupNone \<Longrightarrow> \<forall>(k, g) \<in> set groups. \<forall>b \<in> set g. groupKey gm cats b = k"
proof -
  from assms obtain props where
    p: "getGroupedBooks gm cats (sortBooks lc sm bs) = Inr props"
    and g: "groups = objectEntries props"
    by (auto simp: groupedBooks_def split: sum.splits)
  have todos: "objectEntries [(''Todos'', xs)] = [(''Todos'', xs)]" for xs :: "Book list"
    by (simp add: objectEntries_def isArrayIndex_def isDigit_def)
  show none: "groups = [(''Todos'', sortBooks lc sm bs)]" if "gm = GroupNone"
  proof -
    from p that have pr: "props = [(''Todos'', sortBooks lc sm bs)]"
      by (auto simp: getGroupedBooks_def)
    show ?thesis unfolding g pr by (rule todos)
  qed
  have l: "groupLoop (groupKey gm cats) (sortBooks lc sm bs) [] = Inr props" if "gm \<noteq> GroupNone"
    using p that by (simp add: getGroupedBooks_def)
  show m: "mset (concat (map snd groups)) = mset bs"
  proof (cases "gm = GroupNone")
    case True
    with none show ?thesis by (simp add: mset_sortBooks)
  next
    case False
    from groupLoop_partition [OF l [OF False]] show ?thesis
      unfolding g objectEntries_books by (simp add: mset_sortBooks)
  qed
  from m show "length (concat (map snd groups)) = length bs"
    by (rule mset_eq_length)
  show "distinct (map fst groups)"
  proof (cases "gm = GroupNone")
    case True
    with none show ?thesis by simp
  next
    case False
    from groupLoop_partition [OF l [OF False]] show ?thesis
      unfolding g objectEntries_distinct by simp
  qed
  show "\<forall>(k, g) \<in> set groups. \<forall>b \<in> set g. groupKey gm cats b = k" if "gm \<noteq> GroupNone"
    using groupLoop_keys [OF l [OF that]] unfolding g objectEntries_set by simp
qed

lemma grouping_succeeds:
  assumes "\<forall>c \<in> set cats. name c \<notin> set objectPrototypeKeys"
  shows "\<exists>groups. groupedBooks lc sm GroupCategory cats bs = Inr groups"
proof -
  have "groupKey GroupCategory cats b \<notin> set objectPrototypeKeys" for b
  proof (cases "find (\<lambda>c. Some (id_c c) = category b) cats")
    case None
    then show ?thesis by (simp add: groupKey_def objectPrototypeKeys_def)
  next
    case (Some c)
    then have "c \<in> set cats" by (rule find_Some_mem)
    with assms Some show ?thesis by (simp add: groupKey_def)
  qed
  then have "\<forall>b \<in> set (sortBooks lc sm bs). groupKey GroupCategory cats b \<notin> set objectPrototypeKeys"
    by simp
  from groupLoop_succeeds [OF this, of "[]"] obtain props where
    "groupLoop (groupKey GroupCategory cats) (sortBooks lc sm bs) [] = Inr props" by blast
  then show ?thesis
    by (simp add: groupedBooks_def getGroupedBooks_def)
qed

text \<open>
  C5. The books grouped by category cannot be rendered when a book is in a category
  whose name is that of a property every plain object inherits: for the category named
  \<open>constructor\<close>, \<open>groups[key]\<close> is the inherited function, no array is stored, and
  \<open>groups[key].push\<close> is not a function. (For every other input the buckets hold
  the books of the library, each book once, under its key, and the mode \<open>none\<close> gives
  one bucket with all books: \<open>grouping_partitions\<close>, \<open>grouping_succeeds\<close>.)
\<close>

theorem grouping_by_inherited_name_fails:
  "groupedBooks (\<lambda>a b. 0) SortRecent GroupCategory
     [\<lparr>id_c = ''c1'', name = ''constructor''\<rparr>]
     [(newBook ''b1'' 1000 (pdfFile ''dune.pdf''))\<lparr>category := Some ''c1''\<rparr>]
   = Inl TypeError"
  by code_simp

end
